theory Spec2Isabelle
  imports Complex_Main "HOL-Library.AList"
begin

section \<open>The transform cache\<close>

text \<open>
  Each transform owns a LevelDB instance (\<^verbatim>\<open>self.transform_cache_db\<close>) mapping byte-string
  keys to byte-string values. The transforms write four kinds of text into it:
  \<^item> \<^verbatim>\<open>str(n)\<close> of an integer (a block height, the number of staking wallets);
  \<^item> \<^verbatim>\<open>str(x)\<close> of a stake amount (a Python float; modelled by an exact real number);
  \<^item> \<^verbatim>\<open>json.dumps(d)\<close> of a dictionary with string keys;
  \<^item> a wallet record \<^verbatim>\<open>f'{stake_value}:{unstaking_value}:{unlock_height}'\<close>.
  A stored value is modelled by the text's content, one constructor per kind; the parsers
  below accept the kinds that the corresponding Python parser accepts and raise on the rest.
  Wallet records live in the same key space as the reserved keys, keyed by the address.
\<close>

type_synonym addr = string

datatype 'j cell =
    IntVal int
  | NumVal real
  | Dict "(string \<times> 'j) list"
  | Rec real real int

type_synonym 'j store = "(string \<times> 'j cell) list"

definition get :: "'j store \<Rightarrow> string \<Rightarrow> 'j cell option" where
  "get db k = map_of db k"

definition put :: "string \<Rightarrow> 'j cell \<Rightarrow> 'j store \<Rightarrow> 'j store" where
  "put k v db = AList.update k v db"

text \<open>The Python exceptions that the transforms can raise.\<close>

datatype error = AttributeError | ValueError | TypeError | KeyError

text \<open>\<^verbatim>\<open>int(b)\<close>: only the text of an integer parses.\<close>

fun parse_int :: "'j cell \<Rightarrow> error + int" where
  "parse_int (IntVal i) = Inr i"
| "parse_int _ = Inl ValueError"

text \<open>\<^verbatim>\<open>float(b)\<close>: the text of an integer or of a float parses.\<close>

fun parse_float :: "'j cell \<Rightarrow> error + real" where
  "parse_float (IntVal i) = Inr (of_int i)"
| "parse_float (NumVal r) = Inr r"
| "parse_float _ = Inl ValueError"

text \<open>\<^verbatim>\<open>int(x)\<close> of a float truncates towards zero.\<close>

definition trunc :: "real \<Rightarrow> int" where
  "trunc r = (if 0 \<le> r then \<lfloor>r\<rfloor> else \<lceil>r\<rceil>)"

text \<open>
  \<^verbatim>\<open>a, b, c = data.split(b':')\<close> followed by \<^verbatim>\<open>float(a)\<close>, \<^verbatim>\<open>float(b)\<close>, \<^verbatim>\<open>int(c)\<close>:
  only a wallet record parses.
\<close>

fun parse_rec :: "'j cell \<Rightarrow> error + (real \<times> real \<times> int)" where
  "parse_rec (Rec s u l) = Inr (s, u, l)"
| "parse_rec _ = Inl ValueError"

text \<open>
  \<^verbatim>\<open>json.loads(b)\<close> used as a dictionary. A wallet record is not JSON
  (\<^verbatim>\<open>JSONDecodeError\<close> is a \<^verbatim>\<open>ValueError\<close>); a number is JSON but not a dictionary, and
  iterating it or assigning an item raises \<^verbatim>\<open>TypeError\<close>.
\<close>

fun parse_dict :: "'j cell \<Rightarrow> error + (string \<times> 'j) list" where
  "parse_dict (Dict d) = Inr d"
| "parse_dict (Rec s u l) = Inl ValueError"
| "parse_dict _ = Inl TypeError"

text \<open>
  \<^verbatim>\<open>d = cache_db.get(key); d = json.loads(d) if d else {}\<close>
\<close>

definition load_dict :: "'j store \<Rightarrow> string \<Rightarrow> error + (string \<times> 'j) list" where
  "load_dict db k = (case get db k of None \<Rightarrow> Inr [] | Some c \<Rightarrow> parse_dict c)"

section \<open>The resync request\<close>

text \<open>
  \<^verbatim>\<open>rpc_client.call_async(self.warehouse_endpoint, ...)\<close> is recorded as the list of requests
  that one call of \<^verbatim>\<open>execute\<close> sends to the warehouse.
\<close>

record resync_request =
  call_id :: string
  api_id :: "string option"
  req_height :: int
  req_transform_id :: string

text \<open>
  The sequencing check that opens both transforms: the stored height, when present, must be
  \<^verbatim>\<open>height - 1\<close>. The result is the stored height when the block is out of order.
\<close>

definition out_of_order :: "'j store \<Rightarrow> string \<Rightarrow> int \<Rightarrow> error + int option" where
  "out_of_order db key height =
     (case get db key of
        None \<Rightarrow> Inr None
      | Some c \<Rightarrow>
          (case parse_int c of
             Inl e \<Rightarrow> Inl e
           | Inr prev_state_height \<Rightarrow>
               if prev_state_height \<noteq> height - 1 then Inr (Some prev_state_height)
               else Inr None))"

section \<open>The staking-ledger transform (stake\_history.py)\<close>

definition PREV_STATE_HEIGHT_KEY :: string where
  "PREV_STATE_HEIGHT_KEY = ''prev_state_height''"

definition PREV_TOTAL_STAKING_KEY :: string where
  "PREV_TOTAL_STAKING_KEY = ''prev_total_staking''"

definition PREV_TOTAL_UNSTAKING_KEY :: string where
  "PREV_TOTAL_UNSTAKING_KEY = ''prev_total_unstaking''"

definition PREV_TOTAL_STAKING_WALLETS_KEY :: string where
  "PREV_TOTAL_STAKING_WALLETS_KEY = ''prev_total_staking_wallets''"

definition UNSTAKING_KEY :: string where
  "UNSTAKING_KEY = ''unstaking''"

record totals =
  total_staking :: real
  total_unstaking :: real
  total_staking_wallets :: int

record stake_output =
  out_height :: int
  out_data :: totals

text \<open>
  The chain collaborators of one call: \<^verbatim>\<open>unlock_period\<close> (the lock-period formula of
  iconservice, not part of this repository) and the value of \<^verbatim>\<open>total_supply\<close> in the ICON
  state database, \<open>None\<close> when the key is absent (\<^verbatim>\<open>int.from_bytes(None, 'big')\<close> raises
  \<^verbatim>\<open>TypeError\<close>).
\<close>

record chain =
  unlock_period :: "real \<Rightarrow> real \<Rightarrow> int"
  total_supply :: "real option"

text \<open>Lines 62-70: the totals of the previous block, zero when absent.\<close>

definition load_float :: "'j store \<Rightarrow> string \<Rightarrow> error + real" where
  "load_float db k = (case get db k of None \<Rightarrow> Inr 0 | Some c \<Rightarrow> parse_float c)"

definition load_totals :: "'j store \<Rightarrow> error + totals" where
  "load_totals db =
     (case load_float db PREV_TOTAL_STAKING_KEY of
        Inl e \<Rightarrow> Inl e
      | Inr prev_total_staking \<Rightarrow>
     (case load_float db PREV_TOTAL_UNSTAKING_KEY of
        Inl e \<Rightarrow> Inl e
      | Inr prev_total_unstaking \<Rightarrow>
     (case load_float db PREV_TOTAL_STAKING_WALLETS_KEY of
        Inl e \<Rightarrow> Inl e
      | Inr w \<Rightarrow>
          Inr \<lparr>total_staking = prev_total_staking,
               total_unstaking = prev_total_unstaking,
               total_staking_wallets = trunc w\<rparr>)))"

text \<open>
  Lines 83-90, the loop over \<^verbatim>\<open>list(unstaking_addresses)\<close>: an entry whose unlock height has
  been reached is popped from the dictionary and the wallet's record is rewritten as
  \<^verbatim>\<open>f'{stake_value}:0:0'\<close>, at once in the cache. The result carries the cache as the loop
  left it, also when it raises.
\<close>

fun cleanup ::
  "int \<Rightarrow> addr list \<Rightarrow> (addr \<times> int) list \<Rightarrow> int store \<Rightarrow> (error + (addr \<times> int) list) \<times> int store"
where
  "cleanup height [] unstaking_addresses db = (Inr unstaking_addresses, db)"
| "cleanup height (a # as) unstaking_addresses db =
     (case map_of unstaking_addresses a of
        None \<Rightarrow> (Inl KeyError, db)
      | Some h \<Rightarrow>
          if h \<le> height then
            (case get db a of
               None \<Rightarrow> (Inl AttributeError, db)
             | Some c \<Rightarrow>
                 (case parse_rec c of
                    Inl e \<Rightarrow> (Inl e, db)
                  | Inr (stake_value, unstaking_value, unlock_height) \<Rightarrow>
                      cleanup height as (AList.delete a unstaking_addresses)
                        (put a (Rec stake_value 0 0) db)))
          else cleanup height as unstaking_addresses db)"

text \<open>Lines 100-108: the wallet's previous record, all zero when the wallet is unseen.\<close>

definition load_wallet :: "'j store \<Rightarrow> addr \<Rightarrow> error + (real \<times> real \<times> int)" where
  "load_wallet db a = (case get db a of None \<Rightarrow> Inr (0, 0, 0) | Some c \<Rightarrow> parse_rec c)"

text \<open>Lines 113-116: the number of staking wallets.\<close>

definition count_wallets :: "real \<Rightarrow> real \<Rightarrow> int \<Rightarrow> int" where
  "count_wallets prev_stake_value cur_stake_value n =
     (if prev_stake_value = 0 \<and> cur_stake_value > 0 then n + 1
      else if prev_stake_value > 0 \<and> cur_stake_value = 0 then n - 1
      else n)"

text \<open>
  Lines 118-140: the new unstaking value and unlock height. The unstake branch reads the
  total supply and calls \<^verbatim>\<open>unlock_period\<close> with \<^verbatim>\<open>prev_total_staking\<close>, the total read from
  the cache at the start of the call.
\<close>

definition restake :: "chain \<Rightarrow> int \<Rightarrow> real \<Rightarrow> real \<times> real \<times> int \<Rightarrow> real \<Rightarrow> error + (real \<times> int)" where
  "restake env height prev_total_staking prev cur_stake_value =
     (case prev of (prev_stake_value, prev_unstaking_value, unlock_height) \<Rightarrow>
        if cur_stake_value < prev_stake_value then
          (case total_supply env of
             None \<Rightarrow> Inl TypeError
           | Some supply \<Rightarrow>
               Inr (if prev_unstaking_value > 0
                    then prev_unstaking_value + (prev_stake_value - cur_stake_value)
                    else prev_stake_value - cur_stake_value,
                    height + unlock_period env prev_total_staking supply))
        else
          Inr (if prev_unstaking_value > 0
               then prev_unstaking_value - (cur_stake_value - prev_stake_value)
               else 0,
               unlock_height))"

definition settle :: "real \<times> int \<Rightarrow> real \<times> int" where
  "settle x = (case x of (cur_unstaking_value, unlock_height) \<Rightarrow>
     if cur_unstaking_value \<le> 0 then (0, 0) else (cur_unstaking_value, unlock_height))"

text \<open>Lines 146-154: a wallet with a non-zero unlock height is entered in the stored dictionary.\<close>

definition note_unstaking :: "addr \<Rightarrow> int \<Rightarrow> int store \<Rightarrow> (error + unit) \<times> int store" where
  "note_unstaking a unlock_height db =
     (if unlock_height \<noteq> 0 then
        (case load_dict db UNSTAKING_KEY of
           Inl e \<Rightarrow> (Inl e, db)
         | Inr unstaking_addresses \<Rightarrow>
             (Inr (), put UNSTAKING_KEY (Dict (AList.update a unlock_height unstaking_addresses)) db))
      else (Inr (), db))"

text \<open>Lines 99-158: the body of the loop over the wallets of the block.\<close>

definition update_wallet ::
  "chain \<Rightarrow> int \<Rightarrow> real \<Rightarrow> addr \<times> real \<Rightarrow> totals \<times> int store \<Rightarrow> (error + totals) \<times> int store"
where
  "update_wallet env height prev_total_staking entry st =
     (case entry of (a, cur_stake_value) \<Rightarrow>
      case st of (t, db) \<Rightarrow>
      case load_wallet db a of
        Inl e \<Rightarrow> (Inl e, db)
      | Inr (prev_stake_value, prev_unstaking_value, unlock_height0) \<Rightarrow>
          (case restake env height prev_total_staking
                  (prev_stake_value, prev_unstaking_value, unlock_height0) cur_stake_value of
             Inl e \<Rightarrow> (Inl e, db)
           | Inr x \<Rightarrow>
               (case settle x of (cur_unstaking_value, unlock_height) \<Rightarrow>
                case note_unstaking a unlock_height
                       (put a (Rec cur_stake_value cur_unstaking_value unlock_height) db) of
                  (Inl e, db') \<Rightarrow> (Inl e, db')
                | (Inr u, db') \<Rightarrow>
                    (Inr \<lparr>total_staking = total_staking t - prev_stake_value + cur_stake_value,
                          total_unstaking = total_unstaking t - prev_unstaking_value + cur_unstaking_value,
                          total_staking_wallets =
                            count_wallets prev_stake_value cur_stake_value (total_staking_wallets t)\<rparr>,
                     db'))))"

fun update_wallets ::
  "chain \<Rightarrow> int \<Rightarrow> real \<Rightarrow> (addr \<times> real) list \<Rightarrow> totals \<times> int store \<Rightarrow> (error + totals) \<times> int store"
where
  "update_wallets env height prev_total_staking [] st = (Inr (fst st), snd st)"
| "update_wallets env height prev_total_staking (entry # rest) st =
     (case update_wallet env height prev_total_staking entry st of
        (Inl e, db) \<Rightarrow> (Inl e, db)
      | (Inr t, db) \<Rightarrow> update_wallets env height prev_total_staking rest (t, db))"

text \<open>Lines 160-163: the height and the totals of this block.\<close>

definition commit_totals :: "int \<Rightarrow> totals \<Rightarrow> int store \<Rightarrow> int store" where
  "commit_totals height t db =
     put PREV_TOTAL_STAKING_WALLETS_KEY (IntVal (total_staking_wallets t))
       (put PREV_TOTAL_UNSTAKING_KEY (NumVal (total_unstaking t))
         (put PREV_TOTAL_STAKING_KEY (NumVal (total_staking t))
           (put PREV_STATE_HEIGHT_KEY (IntVal height) db)))"

text \<open>
  \<^verbatim>\<open>Transform.execute\<close> of stake\_history.py. The payload is the dictionary of the wallets
  that set a new stake in the block, in its iteration order. Every \<^verbatim>\<open>cache_db.put\<close> of this
  transform writes to the cache at once, so the returned cache is what the store holds when
  the call returns or raises. The \<^verbatim>\<open>execution_time\<close> entry of the output is left out.
\<close>

definition stake_history_execute ::
  "chain \<Rightarrow> string \<Rightarrow> int \<Rightarrow> (addr \<times> real) list \<Rightarrow> int store
     \<Rightarrow> (error + stake_output option) \<times> resync_request list \<times> int store"
where
  "stake_history_execute env transform_id height input_data db =
     (case out_of_order db PREV_STATE_HEIGHT_KEY height of
        Inl e \<Rightarrow> (Inl e, [], db)
      | Inr (Some prev_state_height) \<Rightarrow>
          (Inr None,
           [\<lparr>call_id = ''set_last_block_height'', api_id = None,
             req_height = prev_state_height, req_transform_id = transform_id\<rparr>],
           db)
      | Inr None \<Rightarrow>
     (case load_totals db of
        Inl e \<Rightarrow> (Inl e, [], db)
      | Inr prev \<Rightarrow>
     (case load_dict db UNSTAKING_KEY of
        Inl e \<Rightarrow> (Inl e, [], db)
      | Inr unstaking_addresses \<Rightarrow>
     (case cleanup height (map fst unstaking_addresses) unstaking_addresses db of
        (Inl e, db1) \<Rightarrow> (Inl e, [], db1)
      | (Inr unstaking_addresses', db1) \<Rightarrow>
     (case update_wallets env height (total_staking prev) input_data
             (prev, put UNSTAKING_KEY (Dict unstaking_addresses') db1) of
        (Inl e, db2) \<Rightarrow> (Inl e, [], db2)
      | (Inr t, db2) \<Rightarrow>
          (Inr (Some \<lparr>out_height = height, out_data = t\<rparr>), [], commit_totals height t db2))))))"

section \<open>The wallet-snapshot transform (recent\_stake\_wallets.py)\<close>

definition LAST_STATE_HEIGHT_KEY :: string where
  "LAST_STATE_HEIGHT_KEY = ''last_state_height''"

definition RECENT_STAKE_WALLETS_KEY :: string where
  "RECENT_STAKE_WALLETS_KEY = ''recent_stake_wallets''"

text \<open>
  \<^verbatim>\<open>cache_db.write_batch()\<close>: the puts are staged in order and reach the cache together when
  \<^verbatim>\<open>write()\<close> is called.
\<close>

type_synonym 'j batch = "(string \<times> 'j cell) list"

definition write_batch :: "'j batch \<Rightarrow> 'j store \<Rightarrow> 'j store" where
  "write_batch b db = foldl (\<lambda>d kv. put (fst kv) (snd kv) d) db b"

record 'j snapshot_output =
  snap_height :: int
  snap_data :: "(string \<times> 'j) list"
  misc_wallets :: "(string \<times> 'j) list option"
  misc_height :: int

text \<open>
  \<^verbatim>\<open>Transform.execute\<close> of recent\_stake\_wallets.py. \<^verbatim>\<open>input_data\<close> is a dictionary whose
  \<^verbatim>\<open>'data'\<close> entry holds the wallets that set a stake in the block.
\<close>

definition recent_stake_wallets_execute ::
  "string \<Rightarrow> int \<Rightarrow> (string \<times> (addr \<times> real) list) list \<Rightarrow> 'j store
     \<Rightarrow> (error + 'j snapshot_output option) \<times> resync_request list \<times> 'j store"
where
  "recent_stake_wallets_execute transform_id height input_data db =
     (case out_of_order db LAST_STATE_HEIGHT_KEY height of
        Inl e \<Rightarrow> (Inl e, [], db)
      | Inr (Some prev_state_height) \<Rightarrow>
          (Inr None,
           [\<lparr>call_id = ''api_call'', api_id = Some ''set_last_block_height'',
             req_height = prev_state_height, req_transform_id = transform_id\<rparr>],
           db)
      | Inr None \<Rightarrow>
     (case map_of input_data ''data'' of
        None \<Rightarrow> (Inl KeyError, [], db)
      | Some set_stake_wallets \<Rightarrow>
     (case (if set_stake_wallets \<noteq> [] then
              (case load_dict db RECENT_STAKE_WALLETS_KEY of
                 Inl e \<Rightarrow> Inl e
               | Inr recent_stake_wallets \<Rightarrow>
                   Inr ([(RECENT_STAKE_WALLETS_KEY, Dict recent_stake_wallets)],
                        Some recent_stake_wallets))
            else Inr ([], None)) of
        Inl e \<Rightarrow> (Inl e, [], db)
      | Inr (cache_db_batch, recent_stake_wallets) \<Rightarrow>
          (Inr (Some \<lparr>snap_height = height, snap_data = [],
                      misc_wallets = recent_stake_wallets, misc_height = height\<rparr>),
           [],
           write_batch (cache_db_batch @ [(LAST_STATE_HEIGHT_KEY, IntVal height)]) db))))"

section \<open>Runs of the staking ledger\<close>

text \<open>
  The pipeline calls \<^verbatim>\<open>execute\<close> once per delivered block. A call is the state of the
  chain collaborators when it is made, the height and the payload; a run threads the cache
  through the calls, whatever each of them returns.
\<close>

type_synonym call = "chain \<times> int \<times> (addr \<times> real) list"

fun run :: "string \<Rightarrow> call list \<Rightarrow> int store \<Rightarrow> int store" where
  "run tid [] db = db"
| "run tid (c # calls) db =
     run tid calls (snd (snd (stake_history_execute (fst c) tid (fst (snd c)) (snd (snd c)) db)))"


text \<open>
  What the properties below ask of a call: a height that is not negative, and a lock-period
  formula that returns a positive number of blocks.
\<close>

definition policy_ok :: "chain \<Rightarrow> int \<Rightarrow> bool" where
  "policy_ok env height = (0 \<le> height \<and> (\<forall>t s. 0 < unlock_period env t s))"

text \<open>The keys that the transform uses for itself; wallet addresses share their key space.\<close>

definition reserved_keys :: "string list" where
  "reserved_keys = [PREV_STATE_HEIGHT_KEY, PREV_TOTAL_STAKING_KEY, PREV_TOTAL_UNSTAKING_KEY,
                    PREV_TOTAL_STAKING_WALLETS_KEY, UNSTAKING_KEY]"

section \<open>Properties of a cache\<close>

text \<open>
  A dictionary entry is due at a height when its unlock height is at most the height; the
  sweep turns the record of a due wallet into one with unstaking value and unlock height zero.
\<close>

definition expired :: "int \<Rightarrow> (addr \<times> int) list \<Rightarrow> addr \<Rightarrow> bool" where
  "expired height ua a = (case map_of ua a of None \<Rightarrow> False | Some h \<Rightarrow> h \<le> height)"

definition zero_rec :: "'j cell option \<Rightarrow> 'j cell option" where
  "zero_rec c = (case c of Some (Rec s u l) \<Rightarrow> Some (Rec s 0 0) | _ \<Rightarrow> c)"

text \<open>Every wallet record has a positive unstaking value exactly when it has a positive unlock height.\<close>

definition wallet_inv :: "int store \<Rightarrow> bool" where
  "wallet_inv db = (\<forall>k s u l. get db k = Some (Rec s u l) \<longrightarrow> (0 < u \<longleftrightarrow> 0 < l))"

text \<open>
  The stored dictionary parses and holds every wallet whose record has a positive unstaking
  value, with the unlock height of the record.
\<close>

definition pending_inv :: "int store \<Rightarrow> bool" where
  "pending_inv db =
     (\<exists>ua. load_dict db UNSTAKING_KEY = Inr ua
         \<and> (\<forall>a s u l. get db a = Some (Rec s u l) \<and> 0 < u \<longrightarrow> map_of ua a = Some l))"

definition ledger_inv :: "int store \<Rightarrow> bool" where
  "ledger_inv db = (wallet_inv db \<and> pending_inv db)"

text \<open>
  A well-formed cache: the totals parse, the stored height is absent or an integer, and the
  dictionary of unstaking wallets parses, has one entry per address, names no reserved key and
  has a wallet record behind every entry. The second predicate says that two caches agree on
  the reserved keys.
\<close>

definition wf_cache :: "int store \<Rightarrow> bool" where
  "wf_cache db =
     ((\<exists>prev. load_totals db = Inr prev)
      \<and> (\<exists>p. out_of_order db PREV_STATE_HEIGHT_KEY (p + 1) = Inr None)
      \<and> (\<exists>ua. load_dict db UNSTAKING_KEY = Inr ua \<and> distinct (map fst ua)
             \<and> (\<forall>a \<in> fst ` set ua. a \<notin> set reserved_keys
                    \<and> (\<exists>s u l. get db a = Some (Rec s u l)))))"

definition same_reserved :: "int store \<Rightarrow> int store \<Rightarrow> bool" where
  "same_reserved db db' = (\<forall>k \<in> set reserved_keys. get db' k = get db k)"



text \<open>
  The sums of the stake values and of the unstaking values over all wallet records of a cache,
  recomputed from the records themselves.
\<close>

fun stake_sum :: "int store \<Rightarrow> real" where
  "stake_sum [] = 0"
| "stake_sum (kv # db) = (case snd kv of Rec s u l \<Rightarrow> s | _ \<Rightarrow> 0) + stake_sum db"

fun unstaking_sum :: "int store \<Rightarrow> real" where
  "unstaking_sum [] = 0"
| "unstaking_sum (kv # db) = (case snd kv of Rec s u l \<Rightarrow> u | _ \<Rightarrow> 0) + unstaking_sum db"

section \<open>Sample chains and blocks\<close>

text \<open>
  A lock-period formula for the examples: 2 blocks while less than 150 is staked, 5 blocks
  from there on. The second chain is one whose total supply cannot be read.
\<close>

definition example_period :: "real \<Rightarrow> real \<Rightarrow> int" where
  "example_period total_stake supply = (if total_stake < 150 then 2 else 5)"

definition example_chain :: chain where
  "example_chain = \<lparr>unlock_period = example_period, total_supply = Some 1000\<rparr>"

definition no_supply_chain :: chain where
  "no_supply_chain = \<lparr>unlock_period = example_period, total_supply = None\<rparr>"

text \<open>
  \<open>hxa\<close> stakes 100 at height 1 and lowers its stake to 40 at height 2; an empty block at
  height 3; two empty blocks at heights 3 and 4; a block that stakes 100 for \<open>hxb\<close> and lowers
  \<open>hxa\<close> to 40.
\<close>

definition calls2 :: "call list" where
  "calls2 = [(example_chain, 1, [(''hxa'', 100)]), (example_chain, 2, [(''hxa'', 40)])]"

definition calls3 :: "call list" where
  "calls3 = calls2 @ [(example_chain, 3, [])]"

definition idle2 :: "call list" where
  "idle2 = [(example_chain, 3, []), (example_chain, 4, [])]"

definition block2 :: "(addr \<times> real) list" where
  "block2 = [(''hxb'', 100), (''hxa'', 40)]"

section \<open>The cache as a map\<close>

lemma get_put: "get (put k v db) k' = (if k' = k then Some v else get db k')"
  by (simp add: get_def put_def update_conv')

lemma get_empty: "get [] k = None"
  by (simp add: get_def)

section \<open>Facts about the stages of the staking ledger\<close>

lemma get_commit_totals:
  "get (commit_totals height t db) k =
     (if k = PREV_TOTAL_STAKING_WALLETS_KEY then Some (IntVal (total_staking_wallets t))
      else if k = PREV_TOTAL_UNSTAKING_KEY then Some (NumVal (total_unstaking t))
      else if k = PREV_TOTAL_STAKING_KEY then Some (NumVal (total_staking t))
      else if k = PREV_STATE_HEIGHT_KEY then Some (IntVal height)
      else get db k)"
  by (simp add: commit_totals_def get_put)

lemma parse_rec_Inr: "parse_rec c = Inr x \<longleftrightarrow> (\<exists>s u l. c = Rec s u l \<and> x = (s, u, l))"
  by (cases c) auto

lemma parse_dict_Inr: "parse_dict c = Inr d \<longleftrightarrow> c = Dict d"
  by (cases c) auto

lemma parse_int_Inr: "parse_int c = Inr i \<longleftrightarrow> c = IntVal i"
  by (cases c) auto

lemma cleanup_result:
  "cleanup height ks ua db = (Inr ua', db') \<Longrightarrow>
     map_of ua' k = (if k \<in> set ks \<and> expired height ua k then None else map_of ua k)
   \<and> get db' k = (if k \<in> set ks \<and> expired height ua k then zero_rec (get db k) else get db k)"
proof (induction ks arbitrary: ua db)
  case Nil
  then show ?case by simp
next
  case (Cons a as)
  show ?case
  proof (cases "map_of ua a")
    case None
    with Cons.prems show ?thesis by simp
  next
    case (Some h)
    show ?thesis
    proof (cases "h \<le> height")
      case False
      with Some Cons.prems have "cleanup height as ua db = (Inr ua', db')" by simp
      from Cons.IH [OF this] Some False show ?thesis
        by (auto simp: expired_def)
    next
      case True
      with Some Cons.prems obtain s u l where c: "get db a = Some (Rec s u l)"
        and r: "cleanup height as (AList.delete a ua) (put a (Rec s 0 0) db) = (Inr ua', db')"
        by (auto simp: parse_rec_Inr split: option.splits sum.splits)
      from Cons.IH [OF r] Some True c show ?thesis
        by (auto simp: expired_def zero_rec_def get_put delete_conv')
    qed
  qed
qed

lemma cleanup_frame:
  "k \<notin> set ks \<Longrightarrow> get (snd (cleanup height ks ua db)) k = get db k"
  by (induction ks arbitrary: ua db)
     (auto simp: get_put split: option.splits sum.splits prod.splits)

lemma cleanup_cells:
  "get (snd (cleanup height ks ua db)) k = get db k
   \<or> (\<exists>s u l. get db k = Some (Rec s u l) \<and> get (snd (cleanup height ks ua db)) k = Some (Rec s 0 0))"
proof (induction ks arbitrary: ua db)
  case Nil
  then show ?case by simp
next
  case (Cons a as)
  show ?case
  proof (cases "\<exists>h s u l. map_of ua a = Some h \<and> h \<le> height \<and> get db a = Some (Rec s u l)")
    case False
    then have "snd (cleanup height (a # as) ua db) = db
               \<or> snd (cleanup height (a # as) ua db) = snd (cleanup height as ua db)"
      by (auto simp: parse_rec_Inr split: option.splits sum.splits)
    with Cons.IH [of ua db] show ?thesis by auto
  next
    case True
    then obtain h s u l where m: "map_of ua a = Some h" "h \<le> height" "get db a = Some (Rec s u l)"
      by blast
    then have e: "snd (cleanup height (a # as) ua db)
                 = snd (cleanup height as (AList.delete a ua) (put a (Rec s 0 0) db))"
      by simp
    from Cons.IH [of "AList.delete a ua" "put a (Rec s 0 0) db"] m show ?thesis
      unfolding e by (auto simp: get_put split: if_splits)
  qed
qed

lemma restake_settle_inv:
  assumes "restake env height pts (ps, pu, pl) cur = Inr x"
      and "settle x = (cu, ul)"
      and "0 < pu \<longleftrightarrow> 0 < pl"
      and "policy_ok env height"
  shows "0 \<le> cu \<and> (0 < cu \<longleftrightarrow> 0 < ul) \<and> (ul = 0 \<longleftrightarrow> cu = 0)"
proof (cases "cur < ps")
  case True
  with assms(1) obtain sp where
    x: "x = (if 0 < pu then pu + (ps - cur) else ps - cur, height + unlock_period env pts sp)"
    by (auto simp: restake_def split: option.splits)
  have "0 < height + unlock_period env pts sp"
    using assms(4) by (simp add: policy_ok_def add_nonneg_pos)
  moreover have "0 < (if 0 < pu then pu + (ps - cur) else ps - cur)"
    using True by auto
  ultimately show ?thesis
    using assms(2) x by (auto simp: settle_def split: if_splits)
next
  case False
  with assms(1) have x: "x = (if 0 < pu then pu - (cur - ps) else 0, pl)"
    by (auto simp: restake_def)
  show ?thesis
    using assms(2,3) x by (auto simp: settle_def split: if_splits)
qed

lemma update_wallet_Inr:
  assumes "update_wallet env height pts (a, cur) (t, db) = (Inr t', db')"
  shows "\<exists>ps pu pl x cu ul.
           load_wallet db a = Inr (ps, pu, pl)
         \<and> restake env height pts (ps, pu, pl) cur = Inr x
         \<and> settle x = (cu, ul)
         \<and> note_unstaking a ul (put a (Rec cur cu ul) db) = (Inr (), db')
         \<and> t' = \<lparr>total_staking = total_staking t - ps + cur,
                 total_unstaking = total_unstaking t - pu + cu,
                 total_staking_wallets = count_wallets ps cur (total_staking_wallets t)\<rparr>"
  using assms
  by (auto simp: update_wallet_def split: sum.splits prod.splits)

lemma update_wallet_store:
  "snd (update_wallet env height pts (a, cur) (t, db)) = db
   \<or> (\<exists>ps pu pl x cu ul.
           load_wallet db a = Inr (ps, pu, pl)
         \<and> restake env height pts (ps, pu, pl) cur = Inr x
         \<and> settle x = (cu, ul)
         \<and> snd (update_wallet env height pts (a, cur) (t, db))
             = snd (note_unstaking a ul (put a (Rec cur cu ul) db)))"
  by (auto simp: update_wallet_def split: sum.splits prod.splits)

lemma note_unstaking_store:
  "snd (note_unstaking a ul db) =
     (if ul \<noteq> 0 then
        (case load_dict db UNSTAKING_KEY of
           Inl e \<Rightarrow> db
         | Inr ua \<Rightarrow> put UNSTAKING_KEY (Dict (AList.update a ul ua)) db)
      else db)"
  by (simp add: note_unstaking_def split: sum.splits)

lemma load_wallet_Inr:
  "load_wallet db a = Inr (ps, pu, pl) \<longleftrightarrow>
     (get db a = None \<and> ps = 0 \<and> pu = 0 \<and> pl = 0) \<or> get db a = Some (Rec ps pu pl)"
  by (auto simp: load_wallet_def parse_rec_Inr split: option.splits)

lemma load_dict_put_other:
  "k \<noteq> k' \<Longrightarrow> load_dict (put k' v db) k = load_dict db k"
  by (simp add: load_dict_def get_put)

lemma load_dict_put_same:
  "load_dict (put k (Dict d) db) k = Inr d"
  by (simp add: load_dict_def get_put)

lemma wallet_inv_put_rec:
  "wallet_inv db \<Longrightarrow> (0 < u \<longleftrightarrow> 0 < l) \<Longrightarrow> wallet_inv (put k (Rec s u l) db)"
  by (auto simp: wallet_inv_def get_put)

lemma wallet_inv_put_other:
  "wallet_inv db \<Longrightarrow> (\<And>s u l. v \<noteq> Rec s u l) \<Longrightarrow> wallet_inv (put k v db)"
  by (auto simp: wallet_inv_def get_put)

lemma wallet_inv_update_wallet:
  assumes "wallet_inv db" and "policy_ok env height"
  shows "wallet_inv (snd (update_wallet env height pts (a, cur) (t, db)))"
proof -
  from update_wallet_store [of env height pts a cur t db] show ?thesis
  proof
    assume "snd (update_wallet env height pts (a, cur) (t, db)) = db"
    with assms show ?thesis by simp
  next
    assume "\<exists>ps pu pl x cu ul.
           load_wallet db a = Inr (ps, pu, pl)
         \<and> restake env height pts (ps, pu, pl) cur = Inr x
         \<and> settle x = (cu, ul)
         \<and> snd (update_wallet env height pts (a, cur) (t, db))
             = snd (note_unstaking a ul (put a (Rec cur cu ul) db))"
    then obtain ps pu pl x cu ul where
      l: "load_wallet db a = Inr (ps, pu, pl)"
      and r: "restake env height pts (ps, pu, pl) cur = Inr x"
      and s: "settle x = (cu, ul)"
      and e: "snd (update_wallet env height pts (a, cur) (t, db))
             = snd (note_unstaking a ul (put a (Rec cur cu ul) db))"
      by blast
    from l assms(1) have "0 < pu \<longleftrightarrow> 0 < pl"
      by (auto simp: load_wallet_Inr wallet_inv_def)
    from restake_settle_inv [OF r s this assms(2)] have "0 < cu \<longleftrightarrow> 0 < ul" by simp
    with assms(1) have "wallet_inv (put a (Rec cur cu ul) db)"
      by (rule wallet_inv_put_rec)
    then show ?thesis
      unfolding e note_unstaking_store
      by (auto split: sum.splits intro: wallet_inv_put_other)
  qed
qed

lemma wallet_inv_update_wallets:
  "wallet_inv (snd st) \<Longrightarrow> policy_ok env height \<Longrightarrow>
     wallet_inv (snd (update_wallets env height pts payload st))"
proof (induction payload arbitrary: st)
  case Nil
  then show ?case by simp
next
  case (Cons entry rest)
  obtain a cur where entry: "entry = (a, cur)" by (cases entry)
  obtain t db where st: "st = (t, db)" by (cases st)
  have w: "wallet_inv (snd (update_wallet env height pts entry st))"
    using Cons.prems wallet_inv_update_wallet [of db env height pts a cur t] entry st by simp
  show ?case
  proof (cases "update_wallet env height pts entry st")
    case (Pair r db1)
    show ?thesis
    proof (cases r)
      case (Inl e)
      with Pair w show ?thesis by simp
    next
      case (Inr t1)
      with Pair w Cons.IH [of "(t1, db1)"] Cons.prems(2) show ?thesis by simp
    qed
  qed
qed

lemma wallet_inv_cleanup:
  assumes "wallet_inv db"
  shows "wallet_inv (snd (cleanup height ks ua db))"
  unfolding wallet_inv_def
proof (intro allI impI)
  fix k s u l
  assume g: "get (snd (cleanup height ks ua db)) k = Some (Rec s u l)"
  from cleanup_cells [of height ks ua db k] show "(0 < u) = (0 < l)"
  proof
    assume "get (snd (cleanup height ks ua db)) k = get db k"
    with g have "get db k = Some (Rec s u l)" by simp
    with assms show ?thesis by (simp add: wallet_inv_def)
  next
    assume "\<exists>s u l. get db k = Some (Rec s u l)
              \<and> get (snd (cleanup height ks ua db)) k = Some (Rec s 0 0)"
    with g show ?thesis by auto
  qed
qed

lemma wallet_inv_commit_totals:
  "wallet_inv db \<Longrightarrow> wallet_inv (commit_totals height t db)"
  by (auto simp: wallet_inv_def get_commit_totals split: if_splits)

lemma execute_committed:
  assumes "stake_history_execute env tid height payload db = (Inr (Some out), rq, db')"
  shows "\<exists>prev ua ua' db1 t db2.
           out_of_order db PREV_STATE_HEIGHT_KEY height = Inr None
         \<and> load_totals db = Inr prev
         \<and> load_dict db UNSTAKING_KEY = Inr ua
         \<and> cleanup height (map fst ua) ua db = (Inr ua', db1)
         \<and> update_wallets env height (total_staking prev) payload
              (prev, put UNSTAKING_KEY (Dict ua') db1) = (Inr t, db2)
         \<and> db' = commit_totals height t db2
         \<and> out = \<lparr>out_height = height, out_data = t\<rparr> \<and> rq = []"
  using assms
  by (auto simp: stake_history_execute_def split: sum.splits option.splits prod.splits)

lemma execute_store_cases:
  assumes "P db"
      and "\<And>ua. load_dict db UNSTAKING_KEY = Inr ua \<Longrightarrow>
             P (snd (cleanup height (map fst ua) ua db))"
      and "\<And>prev ua ua' db1. load_totals db = Inr prev \<Longrightarrow> load_dict db UNSTAKING_KEY = Inr ua \<Longrightarrow>
             cleanup height (map fst ua) ua db = (Inr ua', db1) \<Longrightarrow>
             P (snd (update_wallets env height (total_staking prev) payload
                       (prev, put UNSTAKING_KEY (Dict ua') db1)))"
      and "\<And>prev ua ua' db1 t db2. load_totals db = Inr prev \<Longrightarrow> load_dict db UNSTAKING_KEY = Inr ua \<Longrightarrow>
             cleanup height (map fst ua) ua db = (Inr ua', db1) \<Longrightarrow>
             update_wallets env height (total_staking prev) payload
                (prev, put UNSTAKING_KEY (Dict ua') db1) = (Inr t, db2) \<Longrightarrow>
             P (commit_totals height t db2)"
  shows "P (snd (snd (stake_history_execute env tid height payload db)))"
proof (cases "out_of_order db PREV_STATE_HEIGHT_KEY height")
  case (Inl e)
  with assms(1) show ?thesis by (simp add: stake_history_execute_def)
next
  case (Inr ooo)
  show ?thesis
  proof (cases ooo)
    case (Some p)
    with Inr assms(1) show ?thesis by (simp add: stake_history_execute_def)
  next
    case None
    show ?thesis
    proof (cases "load_totals db")
      case (Inl e)
      with Inr None assms(1) show ?thesis by (simp add: stake_history_execute_def)
    next
      case prev: (Inr prev)
      show ?thesis
      proof (cases "load_dict db UNSTAKING_KEY")
        case (Inl e)
        with Inr None prev assms(1) show ?thesis by (simp add: stake_history_execute_def)
      next
        case ua: (Inr ua)
        obtain r db1 where c: "cleanup height (map fst ua) ua db = (r, db1)"
          by (cases "cleanup height (map fst ua) ua db")
        show ?thesis
        proof (cases r)
          case (Inl e)
          with Inr None prev ua c assms(2) [OF ua] show ?thesis
            by (simp add: stake_history_execute_def)
        next
          case ua': (Inr ua')
          obtain r2 db2 where u: "update_wallets env height (total_staking prev) payload
                (prev, put UNSTAKING_KEY (Dict ua') db1) = (r2, db2)"
            by (cases "update_wallets env height (total_staking prev) payload
                (prev, put UNSTAKING_KEY (Dict ua') db1)")
          show ?thesis
          proof (cases r2)
            case (Inl e)
            with Inr None prev ua c ua' u assms(3) [OF prev ua c [unfolded ua']] show ?thesis
              by (simp add: stake_history_execute_def)
          next
            case t: (Inr t)
            with Inr None prev ua c ua' u assms(4) [OF prev ua c [unfolded ua'] u [unfolded t]]
            show ?thesis
              by (simp add: stake_history_execute_def)
          qed
        qed
      qed
    qed
  qed
qed

lemma wallet_inv_execute:
  assumes "wallet_inv db" and "policy_ok env height"
  shows "wallet_inv (snd (snd (stake_history_execute env tid height payload db)))"
proof (rule execute_store_cases)
  show "wallet_inv db" by fact
next
  fix ua
  show "wallet_inv (snd (cleanup height (map fst ua) ua db))"
    using assms(1) by (rule wallet_inv_cleanup)
next
  fix prev ua ua' db1
  assume "cleanup height (map fst ua) ua db = (Inr ua', db1)"
  then have "db1 = snd (cleanup height (map fst ua) ua db)" by simp
  then have "wallet_inv (put UNSTAKING_KEY (Dict ua') db1)"
    using wallet_inv_cleanup [OF assms(1)] by (simp add: wallet_inv_put_other)
  then show "wallet_inv (snd (update_wallets env height (total_staking prev) payload
                       (prev, put UNSTAKING_KEY (Dict ua') db1)))"
    using assms(2) by (simp add: wallet_inv_update_wallets)
next
  fix prev ua ua' db1 t db2
  assume c: "cleanup height (map fst ua) ua db = (Inr ua', db1)"
    and u: "update_wallets env height (total_staking prev) payload
                (prev, put UNSTAKING_KEY (Dict ua') db1) = (Inr t, db2)"
  from c have "db1 = snd (cleanup height (map fst ua) ua db)" by simp
  then have "wallet_inv (put UNSTAKING_KEY (Dict ua') db1)"
    using wallet_inv_cleanup [OF assms(1)] by (simp add: wallet_inv_put_other)
  then have "wallet_inv (snd (update_wallets env height (total_staking prev) payload
                       (prev, put UNSTAKING_KEY (Dict ua') db1)))"
    using assms(2) by (simp add: wallet_inv_update_wallets)
  with u show "wallet_inv (commit_totals height t db2)"
    by (simp add: wallet_inv_commit_totals)
qed

section \<open>Sequencing\<close>

lemma out_of_order_stored:
  "get db key = Some (IntVal p) \<Longrightarrow> height \<noteq> p + 1 \<Longrightarrow> out_of_order db key height = Inr (Some p)"
  by (auto simp: out_of_order_def)

text \<open>
  Claim C1. In both transforms, when the cache holds a committed last state height \<open>p\<close> and
  \<open>execute\<close> is called with a height other than \<open>p + 1\<close>, the call returns \<open>None\<close>, sends
  exactly one resync request, which carries \<open>p\<close> and the transform's id, and leaves the cache
  as it was.
\<close>

theorem out_of_order_skips:
  "(get db PREV_STATE_HEIGHT_KEY = Some (IntVal p) \<and> height \<noteq> p + 1 \<longrightarrow>
      (\<exists>r. stake_history_execute env tid height payload db = (Inr None, [r], db)
         \<and> req_height r = p \<and> req_transform_id r = tid))
   \<and> (get sdb LAST_STATE_HEIGHT_KEY = Some (IntVal p) \<and> height \<noteq> p + 1 \<longrightarrow>
      (\<exists>r. recent_stake_wallets_execute tid height input_data sdb = (Inr None, [r], sdb)
         \<and> req_height r = p \<and> req_transform_id r = tid))"
  by (simp add: stake_history_execute_def recent_stake_wallets_execute_def out_of_order_stored)

theorem out_of_order_skips_witness:
  "(\<exists>r. stake_history_execute \<lparr>unlock_period = (\<lambda>t s. 5), total_supply = Some 1000\<rparr>
           ''t1'' 12 [(''hxa'', 7)] [(PREV_STATE_HEIGHT_KEY, IntVal 10)]
         = (Inr None, [r], [(PREV_STATE_HEIGHT_KEY, IntVal 10)])
       \<and> req_height r = 10 \<and> req_transform_id r = ''t1'')
   \<and> (\<exists>r. recent_stake_wallets_execute ''t1'' 12 [(''data'', [(''hxa'', 7)])]
           [(LAST_STATE_HEIGHT_KEY, IntVal 10 :: int cell)]
         = (Inr None, [r], [(LAST_STATE_HEIGHT_KEY, IntVal 10)])
       \<and> req_height r = 10 \<and> req_transform_id r = ''t1'')"
  using out_of_order_skips [where db = "[(PREV_STATE_HEIGHT_KEY, IntVal 10)]" and p = 10
      and height = 12 and env = "\<lparr>unlock_period = (\<lambda>t s. 5), total_supply = Some 1000\<rparr>"
      and tid = "''t1''" and payload = "[(''hxa'', 7)]"
      and sdb = "[(LAST_STATE_HEIGHT_KEY, IntVal 10 :: int cell)]"
      and input_data = "[(''data'', [(''hxa'', 7)])]"]
  by (simp add: get_def)

section \<open>Wallet records\<close>

lemma wallet_inv_run:
  "wallet_inv db \<Longrightarrow> \<forall>c \<in> set calls. policy_ok (fst c) (fst (snd c)) \<Longrightarrow>
     wallet_inv (run tid calls db)"
  by (induction calls arbitrary: db) (simp_all add: wallet_inv_execute)

lemmas exec_defs = stake_history_execute_def out_of_order_def load_totals_def load_float_def
  load_dict_def update_wallet_def load_wallet_def restake_def settle_def note_unstaking_def
  count_wallets_def commit_totals_def get_def put_def example_chain_def example_period_def
  PREV_STATE_HEIGHT_KEY_def PREV_TOTAL_STAKING_KEY_def PREV_TOTAL_UNSTAKING_KEY_def
  PREV_TOTAL_STAKING_WALLETS_KEY_def UNSTAKING_KEY_def trunc_def

lemma run1:
  "run ''t'' [(example_chain, 1, [(''hxa'', 100)])] [] =
    [(''unstaking'', Dict []), (''hxa'', Rec 100 0 0),
     (''prev_state_height'', IntVal 1), (''prev_total_staking'', NumVal 100),
     (''prev_total_unstaking'', NumVal 0),
     (''prev_total_staking_wallets'', IntVal 1)]"
  by (simp add: exec_defs)

text \<open>
  Claim C8. Start from an empty cache and make any sequence of \<open>execute\<close> calls at heights
  that are not negative, with a lock-period formula that returns positive block counts. Then
  every wallet record in the cache has a positive unstaking value exactly when it has a
  positive unlock height. This holds after every call, so in particular after every commit:
  the unstake branch, the restake branch, the clamp to zero and the expiry sweep all keep it.
\<close>

theorem unstaking_iff_unlock_height:
  assumes "\<forall>c \<in> set calls. policy_ok (fst c) (fst (snd c))"
      and "get (run tid calls []) a = Some (Rec stake_value unstaking_value unlock_height)"
  shows "0 < unstaking_value \<longleftrightarrow> 0 < unlock_height"
proof -
  have "wallet_inv ([] :: int store)"
    by (simp add: wallet_inv_def get_empty)
  then have "wallet_inv (run tid calls [])"
    using assms(1) by (rule wallet_inv_run)
  with assms(2) show ?thesis
    by (simp add: wallet_inv_def)
qed

lemma run2:
  "run ''t'' [(example_chain, 1, [(''hxa'', 100)]), (example_chain, 2, [(''hxa'', 40)])] [] =
    [(''unstaking'', Dict [(''hxa'', 4)]), (''hxa'', Rec 40 60 4),
     (''prev_state_height'', IntVal 2), (''prev_total_staking'', NumVal 40),
     (''prev_total_unstaking'', NumVal 60),
     (''prev_total_staking_wallets'', IntVal 1)]"
  by (simp add: exec_defs)

lemma policy_ok_example: "0 \<le> height \<Longrightarrow> policy_ok example_chain height"
  by (simp add: policy_ok_def example_chain_def example_period_def)

theorem unstaking_iff_unlock_height_witness:
  "policy_ok example_chain 1 \<and> policy_ok example_chain 2
   \<and> get (run ''t'' [(example_chain, 1, [(''hxa'', 100)]), (example_chain, 2, [(''hxa'', 40)])] [])
        ''hxa'' = Some (Rec 40 60 4)
   \<and> ((0 :: real) < 60 \<longleftrightarrow> (0 :: int) < 4)"
proof -
  have p: "\<forall>c \<in> set [(example_chain, 1, [(''hxa'', 100)]), (example_chain, 2, [(''hxa'', 40 :: real)])].
             policy_ok (fst c) (fst (snd c))"
    by (simp add: policy_ok_example)
  have g: "get (run ''t'' [(example_chain, 1, [(''hxa'', 100)]), (example_chain, 2, [(''hxa'', 40)])] [])
        ''hxa'' = Some (Rec 40 60 4)"
    unfolding run2 by (simp add: get_def)
  from unstaking_iff_unlock_height [OF p g] g show ?thesis
    by (simp add: policy_ok_example)
qed

section \<open>The number of staking wallets\<close>




section \<open>The wallet snapshot\<close>

lemma snapshot_keys_differ: "RECENT_STAKE_WALLETS_KEY \<noteq> LAST_STATE_HEIGHT_KEY"
  by (simp add: RECENT_STAKE_WALLETS_KEY_def LAST_STATE_HEIGHT_KEY_def)

text \<open>
  Claim C10. A committed \<open>execute\<close> of the wallet-snapshot transform leaves the stored mapping
  of recent wallets as it was. When the payload names wallets, the mapping read from the cache
  (the empty mapping when the key is absent) is written back unchanged, together with the
  height, and is the \<open>wallets\<close> entry of the misc output. When the payload names no wallet, only
  the height is written and the \<open>wallets\<close> entry is \<open>None\<close>. The primary data is always the
  empty mapping.
\<close>

theorem snapshot_keeps_recent_wallets:
  assumes "recent_stake_wallets_execute tid height input_data db = (Inr (Some out), rq, db')"
      and "map_of input_data ''data'' = Some set_stake_wallets"
  shows "snap_data out = [] \<and> snap_height out = height
       \<and> load_dict db' RECENT_STAKE_WALLETS_KEY = load_dict db RECENT_STAKE_WALLETS_KEY
       \<and> (set_stake_wallets \<noteq> [] \<longrightarrow>
            (\<exists>m. load_dict db RECENT_STAKE_WALLETS_KEY = Inr m
               \<and> db' = put LAST_STATE_HEIGHT_KEY (IntVal height)
                         (put RECENT_STAKE_WALLETS_KEY (Dict m) db)
               \<and> misc_wallets out = Some m))
       \<and> (set_stake_wallets = [] \<longrightarrow>
            db' = put LAST_STATE_HEIGHT_KEY (IntVal height) db \<and> misc_wallets out = None)"
proof (cases "set_stake_wallets = []")
  case True
  with assms have "db' = put LAST_STATE_HEIGHT_KEY (IntVal height) db"
    and "out = \<lparr>snap_height = height, snap_data = [], misc_wallets = None, misc_height = height\<rparr>"
    by (auto simp: recent_stake_wallets_execute_def write_batch_def
             split: sum.splits option.splits)
  with True show ?thesis
    by (simp add: load_dict_put_other snapshot_keys_differ)
next
  case False
  with assms obtain m where m: "load_dict db RECENT_STAKE_WALLETS_KEY = Inr m"
    and db': "db' = put LAST_STATE_HEIGHT_KEY (IntVal height)
                      (put RECENT_STAKE_WALLETS_KEY (Dict m) db)"
    and out: "out = \<lparr>snap_height = height, snap_data = [], misc_wallets = Some m,
                     misc_height = height\<rparr>"
    by (auto simp: recent_stake_wallets_execute_def write_batch_def
             split: sum.splits option.splits)
  from False m db' out show ?thesis
    by (simp add: load_dict_put_other load_dict_put_same snapshot_keys_differ)
qed

theorem snapshot_keeps_recent_wallets_witness:
  "recent_stake_wallets_execute ''t'' 4 [(''data'', [(''hxa'', 7)])]
       [(LAST_STATE_HEIGHT_KEY, IntVal 3), (RECENT_STAKE_WALLETS_KEY, Dict [(''hxb'', 1 :: int)])]
     = (Inr (Some \<lparr>snap_height = 4, snap_data = [], misc_wallets = Some [(''hxb'', 1)],
                   misc_height = 4\<rparr>), [],
        [(LAST_STATE_HEIGHT_KEY, IntVal 4), (RECENT_STAKE_WALLETS_KEY, Dict [(''hxb'', 1)])])
   \<and> load_dict [(LAST_STATE_HEIGHT_KEY, IntVal 4), (RECENT_STAKE_WALLETS_KEY, Dict [(''hxb'', 1 :: int)])]
        RECENT_STAKE_WALLETS_KEY
     = load_dict [(LAST_STATE_HEIGHT_KEY, IntVal 3), (RECENT_STAKE_WALLETS_KEY, Dict [(''hxb'', 1)])]
        RECENT_STAKE_WALLETS_KEY"
proof -
  have e: "recent_stake_wallets_execute ''t'' 4 [(''data'', [(''hxa'', 7)])]
       [(LAST_STATE_HEIGHT_KEY, IntVal 3), (RECENT_STAKE_WALLETS_KEY, Dict [(''hxb'', 1 :: int)])]
     = (Inr (Some \<lparr>snap_height = 4, snap_data = [], misc_wallets = Some [(''hxb'', 1)],
                   misc_height = 4\<rparr>), [],
        [(LAST_STATE_HEIGHT_KEY, IntVal 4), (RECENT_STAKE_WALLETS_KEY, Dict [(''hxb'', 1)])])"
    by (simp add: recent_stake_wallets_execute_def write_batch_def out_of_order_def load_dict_def
        get_def put_def RECENT_STAKE_WALLETS_KEY_def LAST_STATE_HEIGHT_KEY_def)
  have d: "map_of [(''data'', [(''hxa'', 7 :: real)])] ''data'' = Some [(''hxa'', 7)]"
    by simp
  from snapshot_keeps_recent_wallets [OF e d] e show ?thesis by blast
qed

section \<open>What a per-address update leaves alone\<close>

lemma note_unstaking_frame:
  "k \<noteq> UNSTAKING_KEY \<Longrightarrow> get (snd (note_unstaking a ul db)) k = get db k"
  by (simp add: note_unstaking_store get_put split: sum.splits)

lemma update_wallet_frame:
  assumes "k \<noteq> a" and "k \<noteq> UNSTAKING_KEY"
  shows "get (snd (update_wallet env height pts (a, cur) (t, db))) k = get db k"
  using update_wallet_store [of env height pts a cur t db] assms
  by (auto simp: note_unstaking_frame get_put)

lemma update_wallets_frame:
  "k \<notin> fst ` set payload \<Longrightarrow> k \<noteq> UNSTAKING_KEY \<Longrightarrow>
     get (snd (update_wallets env height pts payload st)) k = get (snd st) k"
proof (induction payload arbitrary: st)
  case Nil
  then show ?case by simp
next
  case (Cons entry rest)
  obtain a cur where entry: "entry = (a, cur)" by (cases entry)
  obtain t db where st: "st = (t, db)" by (cases st)
  from Cons.prems entry have ka: "k \<noteq> a" and kr: "k \<notin> fst ` set rest" by auto
  have f: "get (snd (update_wallet env height pts entry st)) k = get db k"
    using update_wallet_frame [OF ka Cons.prems(2)] entry st by simp
  show ?case
  proof (cases "update_wallet env height pts entry st")
    case (Pair r db1)
    with f have g: "get db1 k = get db k" by simp
    show ?thesis
    proof (cases r)
      case (Inl e)
      with Pair g st show ?thesis by simp
    next
      case (Inr t1)
      with Pair g st Cons.IH [OF kr Cons.prems(2), of "(t1, db1)"] show ?thesis by simp
    qed
  qed
qed

lemma load_wallet_cong: "get db a = get db' a \<Longrightarrow> load_wallet db a = load_wallet db' a"
  by (simp add: load_wallet_def)

lemma update_wallet_unstake:
  assumes u: "update_wallet env height pts (a, cur) (t, db) = (Inr t', db')"
      and l: "load_wallet db a = Inr (ps, pu, pl)"
      and c: "cur < ps"
      and s: "total_supply env = Some sp"
  shows "\<exists>cu. 0 < cu \<and> get db' a = Some (Rec cur cu (height + unlock_period env pts sp))"
proof -
  from update_wallet_Inr [OF u] l obtain x cu ul where
    r: "restake env height pts (ps, pu, pl) cur = Inr x"
    and x: "settle x = (cu, ul)"
    and n: "note_unstaking a ul (put a (Rec cur cu ul) db) = (Inr (), db')"
    by auto
  from r c s have x': "x = (if 0 < pu then pu + (ps - cur) else ps - cur,
                            height + unlock_period env pts sp)"
    by (simp add: restake_def)
  have pos: "0 < (if 0 < pu then pu + (ps - cur) else ps - cur)"
    using c by auto
  with x x' have cu: "0 < cu" and ul: "ul = height + unlock_period env pts sp"
    by (auto simp: settle_def split: if_splits)
  have "get db' a = Some (Rec cur cu ul)"
  proof (cases "a = UNSTAKING_KEY")
    case True
    with n show ?thesis
      by (auto simp: note_unstaking_def load_dict_def get_put split: if_splits sum.splits)
  next
    case False
    then have "get (snd (note_unstaking a ul (put a (Rec cur cu ul) db))) a
                 = get (put a (Rec cur cu ul) db) a"
      by (rule note_unstaking_frame)
    with n show ?thesis by (simp add: get_put)
  qed
  with cu ul show ?thesis by simp
qed

lemma update_wallets_unstake:
  assumes "update_wallets env height pts payload (t, db) = (Inr t', db')"
      and "distinct (map fst payload)"
      and "(a, cur) \<in> set payload"
      and "a \<noteq> UNSTAKING_KEY"
      and "load_wallet db a = Inr (ps, pu, pl)"
      and "cur < ps"
      and "total_supply env = Some sp"
  shows "\<exists>cu. 0 < cu \<and> get db' a = Some (Rec cur cu (height + unlock_period env pts sp))"
  using assms
proof (induction payload arbitrary: t db)
  case Nil
  then show ?case by simp
next
  case (Cons entry rest)
  obtain b c where entry: "entry = (b, c)" by (cases entry)
  from Cons.prems(1) entry obtain t1 db1 where
    u1: "update_wallet env height pts (b, c) (t, db) = (Inr t1, db1)"
    and u2: "update_wallets env height pts rest (t1, db1) = (Inr t', db')"
    by (auto split: prod.splits sum.splits)
  show ?case
  proof (cases "b = a")
    case True
    with Cons.prems(2,3) entry have cc: "c = cur" and nr: "a \<notin> fst ` set rest"
      by (auto simp: image_iff)
    from update_wallet_unstake [OF u1 [unfolded True cc] Cons.prems(5,6,7)] obtain cu where
      cu: "0 < cu" "get db1 a = Some (Rec cur cu (height + unlock_period env pts sp))"
      by blast
    from update_wallets_frame [OF nr Cons.prems(4), of env height pts "(t1, db1)"] u2
    have "get db' a = get db1 a" by simp
    with cu show ?thesis by auto
  next
    case False
    with Cons.prems(3) entry have m: "(a, cur) \<in> set rest" by auto
    from update_wallet_frame [of a b, OF _ Cons.prems(4), of env height pts c t db] False u1
    have "get db1 a = get db a" by simp
    then have l1: "load_wallet db1 a = Inr (ps, pu, pl)"
      using Cons.prems(5) by (simp add: load_wallet_def)
    from Cons.prems(2) have d: "distinct (map fst rest)" by simp
    from Cons.IH [OF u2 d m Cons.prems(4) l1 Cons.prems(6,7)] show ?thesis .
  qed
qed

section \<open>The unlock height of an unstake\<close>

lemma get_commit_totals_other:
  "k \<notin> set reserved_keys \<Longrightarrow> get (commit_totals height t db) k = get db k"
  by (simp add: get_commit_totals reserved_keys_def)

lemma cleanup_stake:
  assumes "load_wallet db a = Inr (ps, pu, pl)"
  shows "\<exists>pu' pl'. load_wallet (snd (cleanup height ks ua db)) a = Inr (ps, pu', pl')"
  using cleanup_cells [of height ks ua db a] assms
  by (auto simp: load_wallet_Inr)

text \<open>
  Claim C6, as the code has it. When a committed block lowers a wallet's stake, the wallet's
  record gets the unlock height \<open>height + unlock_period(T, total_supply)\<close> where \<open>T\<close> is the
  total staking read from the cache at the start of the call, that is the total committed by
  the previous block. It is the same \<open>T\<close> for every wallet of the block, whatever the wallets
  updated before it in the same block have added to or taken from the running total.
\<close>

theorem unstake_unlock_height:
  assumes e: "stake_history_execute env tid height payload db = (Inr (Some out), rq, db')"
      and t: "load_totals db = Inr prev"
      and s: "total_supply env = Some sp"
      and d: "distinct (map fst payload)"
      and m: "(a, cur_stake_value) \<in> set payload"
      and k: "a \<notin> set reserved_keys"
      and l: "load_wallet db a = Inr (prev_stake_value, prev_unstaking_value, unlock_height)"
      and c: "cur_stake_value < prev_stake_value"
  shows "\<exists>cur_unstaking_value. 0 < cur_unstaking_value
           \<and> get db' a = Some (Rec cur_stake_value cur_unstaking_value
                                 (height + unlock_period env (total_staking prev) sp))"
proof -
  from execute_committed [OF e] t obtain ua ua' db1 t' db2 where
    c1: "cleanup height (map fst ua) ua db = (Inr ua', db1)"
    and u: "update_wallets env height (total_staking prev) payload
              (prev, put UNSTAKING_KEY (Dict ua') db1) = (Inr t', db2)"
    and db': "db' = commit_totals height t' db2"
    by auto
  from k have ku: "a \<noteq> UNSTAKING_KEY" by (simp add: reserved_keys_def)
  from cleanup_stake [OF l, of height "map fst ua" ua] c1 obtain pu' pl' where
    "load_wallet db1 a = Inr (prev_stake_value, pu', pl')" by auto
  with ku have l1: "load_wallet (put UNSTAKING_KEY (Dict ua') db1) a = Inr (prev_stake_value, pu', pl')"
    by (simp add: load_wallet_def get_put)
  from update_wallets_unstake [OF u d m ku l1 c s] obtain cu where
    "0 < cu" "get db2 a = Some (Rec cur_stake_value cu
                                 (height + unlock_period env (total_staking prev) sp))"
    by blast
  with db' k show ?thesis
    by (auto simp: get_commit_totals_other)
qed

lemma execute_block2:
  "stake_history_execute example_chain ''t'' 2 block2
      (run ''t'' [(example_chain, 1, [(''hxa'', 100)])] [])
   = (Inr (Some \<lparr>out_height = 2,
                  out_data = \<lparr>total_staking = 140, total_unstaking = 60,
                               total_staking_wallets = 2\<rparr>\<rparr>),
      [],
      [(''unstaking'', Dict [(''hxa'', 4)]), (''hxa'', Rec 40 60 4),
       (''prev_state_height'', IntVal 2), (''prev_total_staking'', NumVal 140),
       (''prev_total_unstaking'', NumVal 60),
       (''prev_total_staking_wallets'', IntVal 2), (''hxb'', Rec 100 0 0)])"
  unfolding run1 by (simp add: exec_defs block2_def)

text \<open>
  The claim as stated fails when another wallet of the same block has changed the running
  total. After height 1 the total is 100. The block at height 2 stakes 100 for \<open>hxb\<close> and then
  lowers \<open>hxa\<close> from 100 to 40: the total before the change of \<open>hxa\<close> is 200, for which the sample
  formula gives 5 blocks, yet the unlock height stored is 4, from the 2 blocks that the formula
  gives for the total 100 of the previous block.
\<close>

theorem unstake_unlock_height_counterexample:
  "get (snd (snd (stake_history_execute example_chain ''t'' 2 block2
                    (run ''t'' [(example_chain, 1, [(''hxa'', 100)])] [])))) ''hxa''
     = Some (Rec 40 60 4)
   \<and> fst (update_wallet example_chain 2 100 (''hxb'', 100)
            (\<lparr>total_staking = 100, total_unstaking = 0, total_staking_wallets = 1\<rparr>,
             put UNSTAKING_KEY (Dict []) (run ''t'' [(example_chain, 1, [(''hxa'', 100)])] [])))
     = Inr \<lparr>total_staking = 200, total_unstaking = 0, total_staking_wallets = 2\<rparr>
   \<and> 2 + unlock_period example_chain 200 1000 = 7"
proof -
  have "fst (update_wallet example_chain 2 100 (''hxb'', 100)
            (\<lparr>total_staking = 100, total_unstaking = 0, total_staking_wallets = 1\<rparr>,
             put UNSTAKING_KEY (Dict []) (run ''t'' [(example_chain, 1, [(''hxa'', 100)])] [])))
     = Inr \<lparr>total_staking = 200, total_unstaking = 0, total_staking_wallets = 2\<rparr>"
    unfolding run1 by (simp add: exec_defs)
  moreover have "2 + unlock_period example_chain 200 1000 = 7"
    by (simp add: example_chain_def example_period_def)
  ultimately show ?thesis
    unfolding execute_block2 by (simp add: get_def)
qed

theorem unstake_unlock_height_witness:
  "load_totals (run ''t'' [(example_chain, 1, [(''hxa'', 100)])] [])
     = Inr \<lparr>total_staking = 100, total_unstaking = 0, total_staking_wallets = 1\<rparr>
   \<and> total_supply example_chain = Some 1000
   \<and> distinct (map fst block2) \<and> (''hxa'', 40) \<in> set block2 \<and> ''hxa'' \<notin> set reserved_keys
   \<and> load_wallet (run ''t'' [(example_chain, 1, [(''hxa'', 100)])] []) ''hxa'' = Inr (100, 0, 0)
   \<and> (\<exists>cur_unstaking_value. 0 < cur_unstaking_value
         \<and> get (snd (snd (stake_history_execute example_chain ''t'' 2 block2
                    (run ''t'' [(example_chain, 1, [(''hxa'', 100)])] [])))) ''hxa''
           = Some (Rec 40 cur_unstaking_value 4))"
proof -
  have t: "load_totals (run ''t'' [(example_chain, 1, [(''hxa'', 100)])] [])
     = Inr \<lparr>total_staking = 100, total_unstaking = 0, total_staking_wallets = 1\<rparr>"
    unfolding run1 by (simp add: exec_defs)
  have s: "total_supply example_chain = Some 1000"
    by (simp add: example_chain_def)
  have d: "distinct (map fst block2)" by (simp add: block2_def)
  have m: "(''hxa'', 40) \<in> set block2" by (simp add: block2_def)
  have k: "''hxa'' \<notin> set reserved_keys" by (simp add: reserved_keys_def exec_defs)
  have l: "load_wallet (run ''t'' [(example_chain, 1, [(''hxa'', 100)])] []) ''hxa'' = Inr (100, 0, 0)"
    unfolding run1 by (simp add: exec_defs)
  have c: "(40 :: real) < 100" by simp
  from unstake_unlock_height [OF execute_block2 t s d m k l c]
  have "\<exists>cur_unstaking_value. 0 < cur_unstaking_value
         \<and> get (snd (snd (stake_history_execute example_chain ''t'' 2 block2
                    (run ''t'' [(example_chain, 1, [(''hxa'', 100)])] [])))) ''hxa''
           = Some (Rec 40 cur_unstaking_value 4)"
    unfolding execute_block2 by (simp add: example_chain_def example_period_def)
  with t s d m k l show ?thesis by blast
qed

section \<open>The stored dictionary of unstaking wallets\<close>

lemma pending_invI:
  assumes "load_dict db UNSTAKING_KEY = Inr ua"
      and "\<And>a s u l. get db a = Some (Rec s u l) \<Longrightarrow> 0 < u \<Longrightarrow> map_of ua a = Some l"
  shows "pending_inv db"
  unfolding pending_inv_def using assms by blast

lemma pending_invD:
  assumes "pending_inv db" and "load_dict db UNSTAKING_KEY = Inr ua"
      and "get db a = Some (Rec s u l)" and "0 < u"
  shows "map_of ua a = Some l"
  using assms unfolding pending_inv_def by auto

lemma cleanup_keeps_dict:
  assumes "load_dict db UNSTAKING_KEY = Inr ua0"
  shows "load_dict (snd (cleanup height ks ua db)) UNSTAKING_KEY = Inr ua0"
  using cleanup_cells [of height ks ua db UNSTAKING_KEY] assms
  by (auto simp: load_dict_def split: option.splits)

lemma pending_inv_cleanup:
  assumes "pending_inv db"
  shows "pending_inv (snd (cleanup height ks ua db))"
proof -
  from assms obtain ua0 where l: "load_dict db UNSTAKING_KEY = Inr ua0"
    by (auto simp: pending_inv_def)
  show ?thesis
  proof (rule pending_invI [OF cleanup_keeps_dict [OF l]])
    fix a s u l
    assume g: "get (snd (cleanup height ks ua db)) a = Some (Rec s u l)" and u: "0 < (u :: real)"
    from cleanup_cells [of height ks ua db a] g u have "get db a = Some (Rec s u l)"
      by auto
    from pending_invD [OF assms l this u] show "map_of ua0 a = Some l" .
  qed
qed

lemma pending_inv_swept:
  assumes p: "pending_inv db"
      and l: "load_dict db UNSTAKING_KEY = Inr ua"
      and c: "cleanup height ks ua db = (Inr ua', db1)"
  shows "pending_inv (put UNSTAKING_KEY (Dict ua') db1)"
proof (rule pending_invI [OF load_dict_put_same])
  fix a s u l
  assume g: "get (put UNSTAKING_KEY (Dict ua') db1) a = Some (Rec s u l)" and u: "0 < (u :: real)"
  from g have a: "a \<noteq> UNSTAKING_KEY" and g1: "get db1 a = Some (Rec s u l)"
    by (auto simp: get_put split: if_splits)
  from cleanup_result [OF c, of a] have
    m: "map_of ua' a = (if a \<in> set ks \<and> expired height ua a then None else map_of ua a)"
    and r: "get db1 a = (if a \<in> set ks \<and> expired height ua a then zero_rec (get db a) else get db a)"
    by simp_all
  have n: "\<not> (a \<in> set ks \<and> expired height ua a)"
  proof
    assume "a \<in> set ks \<and> expired height ua a"
    with r g1 have "zero_rec (get db a) = Some (Rec s u l)" by simp
    with u show False
      by (auto simp: zero_rec_def split: option.splits cell.splits)
  qed
  with r g1 have "get db a = Some (Rec s u l)" by simp
  from pending_invD [OF p l this u] m n show "map_of ua' a = Some l" by simp
qed

lemma ledger_inv_update_wallet:
  assumes i: "ledger_inv db" and ok: "policy_ok env height" and a: "a \<noteq> UNSTAKING_KEY"
  shows "ledger_inv (snd (update_wallet env height pts (a, cur) (t, db)))"
proof -
  from i have w: "wallet_inv db" and p: "pending_inv db" by (simp_all add: ledger_inv_def)
  from p obtain ua where l: "load_dict db UNSTAKING_KEY = Inr ua"
    by (auto simp: pending_inv_def)
  have w': "wallet_inv (snd (update_wallet env height pts (a, cur) (t, db)))"
    using w ok by (rule wallet_inv_update_wallet)
  from update_wallet_store [of env height pts a cur t db]
  have "pending_inv (snd (update_wallet env height pts (a, cur) (t, db)))"
  proof
    assume "snd (update_wallet env height pts (a, cur) (t, db)) = db"
    with p show ?thesis by simp
  next
    assume "\<exists>ps pu pl x cu ul.
           load_wallet db a = Inr (ps, pu, pl)
         \<and> restake env height pts (ps, pu, pl) cur = Inr x
         \<and> settle x = (cu, ul)
         \<and> snd (update_wallet env height pts (a, cur) (t, db))
             = snd (note_unstaking a ul (put a (Rec cur cu ul) db))"
    then obtain ps pu pl x cu ul where
      lw: "load_wallet db a = Inr (ps, pu, pl)"
      and r: "restake env height pts (ps, pu, pl) cur = Inr x"
      and s: "settle x = (cu, ul)"
      and e: "snd (update_wallet env height pts (a, cur) (t, db))
             = snd (note_unstaking a ul (put a (Rec cur cu ul) db))"
      by blast
    from lw w have "0 < pu \<longleftrightarrow> 0 < pl"
      by (auto simp: load_wallet_Inr wallet_inv_def)
    from restake_settle_inv [OF r s this ok] have z: "ul = 0 \<longleftrightarrow> cu = 0" and nn: "0 \<le> cu"
      by simp_all
    have l1: "load_dict (put a (Rec cur cu ul) db) UNSTAKING_KEY = Inr ua"
      using l a by (simp add: load_dict_put_other)
    show ?thesis
    proof (cases "ul = 0")
      case True
      with z have cu: "cu = 0" by simp
      from True have e': "snd (update_wallet env height pts (a, cur) (t, db))
                            = put a (Rec cur cu ul) db"
        using e by (simp add: note_unstaking_store)
      show ?thesis
        unfolding e'
      proof (rule pending_invI [OF l1])
        fix b s u l'
        assume g: "get (put a (Rec cur cu ul) db) b = Some (Rec s u l')" and u: "0 < (u :: real)"
        with cu have "b \<noteq> a" by (auto simp: get_put split: if_splits)
        with g have "get db b = Some (Rec s u l')" by (simp add: get_put)
        from pending_invD [OF p l this u] show "map_of ua b = Some l'" .
      qed
    next
      case False
      then have e': "snd (update_wallet env height pts (a, cur) (t, db))
                       = put UNSTAKING_KEY (Dict (AList.update a ul ua)) (put a (Rec cur cu ul) db)"
        using e l1 by (simp add: note_unstaking_store)
      show ?thesis
        unfolding e'
      proof (rule pending_invI [OF load_dict_put_same])
        fix b s u l'
        assume g: "get (put UNSTAKING_KEY (Dict (AList.update a ul ua)) (put a (Rec cur cu ul) db)) b
                     = Some (Rec s u l')" and u: "0 < (u :: real)"
        show "map_of (AList.update a ul ua) b = Some l'"
        proof (cases "b = a")
          case True
          with g a have "l' = ul" by (simp add: get_put)
          with True show ?thesis by (simp add: update_conv')
        next
          case False
          with g have "get db b = Some (Rec s u l')"
            by (auto simp: get_put split: if_splits)
          from pending_invD [OF p l this u] False show ?thesis
            by (simp add: update_conv')
        qed
      qed
    qed
  qed
  with w' show ?thesis by (simp add: ledger_inv_def)
qed

lemma ledger_inv_update_wallets:
  "ledger_inv (snd st) \<Longrightarrow> policy_ok env height \<Longrightarrow> UNSTAKING_KEY \<notin> fst ` set payload \<Longrightarrow>
     ledger_inv (snd (update_wallets env height pts payload st))"
proof (induction payload arbitrary: st)
  case Nil
  then show ?case by simp
next
  case (Cons entry rest)
  obtain a cur where entry: "entry = (a, cur)" by (cases entry)
  obtain t db where st: "st = (t, db)" by (cases st)
  from Cons.prems(3) entry have a: "a \<noteq> UNSTAKING_KEY" and r: "UNSTAKING_KEY \<notin> fst ` set rest"
    by auto
  have w: "ledger_inv (snd (update_wallet env height pts entry st))"
    using Cons.prems(1,2) ledger_inv_update_wallet [OF _ _ a, of db env height pts cur t] entry st
    by simp
  show ?case
  proof (cases "update_wallet env height pts entry st")
    case (Pair res db1)
    show ?thesis
    proof (cases res)
      case (Inl e)
      with Pair w show ?thesis by simp
    next
      case (Inr t1)
      with Pair w Cons.IH [of "(t1, db1)"] Cons.prems(2) r show ?thesis by simp
    qed
  qed
qed

lemma pending_inv_commit_totals:
  assumes "pending_inv db"
  shows "pending_inv (commit_totals height t db)"
proof -
  from assms obtain ua where l: "load_dict db UNSTAKING_KEY = Inr ua"
    by (auto simp: pending_inv_def)
  have "UNSTAKING_KEY \<notin> set [PREV_STATE_HEIGHT_KEY, PREV_TOTAL_STAKING_KEY,
          PREV_TOTAL_UNSTAKING_KEY, PREV_TOTAL_STAKING_WALLETS_KEY]"
    by (simp add: exec_defs)
  then have "get (commit_totals height t db) UNSTAKING_KEY = get db UNSTAKING_KEY"
    by (simp add: get_commit_totals)
  with l have l': "load_dict (commit_totals height t db) UNSTAKING_KEY = Inr ua"
    by (simp add: load_dict_def)
  show ?thesis
  proof (rule pending_invI [OF l'])
    fix a s u l'
    assume "get (commit_totals height t db) a = Some (Rec s u l')" and u: "0 < (u :: real)"
    then have "get db a = Some (Rec s u l')"
      by (auto simp: get_commit_totals split: if_splits)
    from pending_invD [OF assms l this u] show "map_of ua a = Some l'" .
  qed
qed

lemma ledger_inv_execute:
  assumes i: "ledger_inv db" and ok: "policy_ok env height"
      and u: "UNSTAKING_KEY \<notin> fst ` set payload"
  shows "ledger_inv (snd (snd (stake_history_execute env tid height payload db)))"
proof (rule execute_store_cases)
  show "ledger_inv db" by fact
next
  fix ua
  from i show "ledger_inv (snd (cleanup height (map fst ua) ua db))"
    by (simp add: ledger_inv_def wallet_inv_cleanup pending_inv_cleanup)
next
  fix prev ua ua' db1
  assume l: "load_dict db UNSTAKING_KEY = Inr ua"
    and c: "cleanup height (map fst ua) ua db = (Inr ua', db1)"
  from c have d: "db1 = snd (cleanup height (map fst ua) ua db)" by simp
  from i have "wallet_inv (put UNSTAKING_KEY (Dict ua') db1)"
    unfolding d by (simp add: ledger_inv_def wallet_inv_cleanup wallet_inv_put_other)
  moreover from i have "pending_inv (put UNSTAKING_KEY (Dict ua') db1)"
    using pending_inv_swept [OF _ l c] by (simp add: ledger_inv_def)
  ultimately have s: "ledger_inv (put UNSTAKING_KEY (Dict ua') db1)"
    by (simp add: ledger_inv_def)
  then show "ledger_inv (snd (update_wallets env height (total_staking prev) payload
                       (prev, put UNSTAKING_KEY (Dict ua') db1)))"
    using ok u by (simp add: ledger_inv_update_wallets)
next
  fix prev ua ua' db1 t db2
  assume l: "load_dict db UNSTAKING_KEY = Inr ua"
    and c: "cleanup height (map fst ua) ua db = (Inr ua', db1)"
    and uw: "update_wallets env height (total_staking prev) payload
                (prev, put UNSTAKING_KEY (Dict ua') db1) = (Inr t, db2)"
  from c have d: "db1 = snd (cleanup height (map fst ua) ua db)" by simp
  from i have "wallet_inv (put UNSTAKING_KEY (Dict ua') db1)"
    unfolding d by (simp add: ledger_inv_def wallet_inv_cleanup wallet_inv_put_other)
  moreover from i have "pending_inv (put UNSTAKING_KEY (Dict ua') db1)"
    using pending_inv_swept [OF _ l c] by (simp add: ledger_inv_def)
  ultimately have s: "ledger_inv (put UNSTAKING_KEY (Dict ua') db1)"
    by (simp add: ledger_inv_def)
  then have "ledger_inv (snd (update_wallets env height (total_staking prev) payload
                       (prev, put UNSTAKING_KEY (Dict ua') db1)))"
    using ok u by (simp add: ledger_inv_update_wallets)
  with uw show "ledger_inv (commit_totals height t db2)"
    by (simp add: ledger_inv_def wallet_inv_commit_totals pending_inv_commit_totals)
qed

lemma ledger_inv_run:
  "ledger_inv db \<Longrightarrow>
   \<forall>c \<in> set calls. policy_ok (fst c) (fst (snd c)) \<and> UNSTAKING_KEY \<notin> fst ` set (snd (snd c)) \<Longrightarrow>
     ledger_inv (run tid calls db)"
  by (induction calls arbitrary: db) (simp_all add: ledger_inv_execute)

lemma settled_update:
  assumes u: "update_wallet env height pts (a, cur) (t, db) = (Inr t', db')"
      and g: "get db' a = Some (Rec s 0 l)"
      and a: "a \<noteq> UNSTAKING_KEY"
  shows "db' = put a (Rec cur 0 0) db"
proof -
  from update_wallet_Inr [OF u] obtain x cu ul where
    x: "settle x = (cu, ul)"
    and n: "note_unstaking a ul (put a (Rec cur cu ul) db) = (Inr (), db')"
    by auto
  from n have "db' = snd (note_unstaking a ul (put a (Rec cur cu ul) db))" by simp
  with note_unstaking_frame [OF a, of a ul "put a (Rec cur cu ul) db"]
  have "get db' a = Some (Rec cur cu ul)" by (simp add: get_put)
  with g have cu: "cu = 0" by simp
  with x have ul: "ul = 0" by (cases x) (auto simp: settle_def split: if_splits)
  from n cu ul show ?thesis by (simp add: note_unstaking_def)
qed

text \<open>
  Claim C4, as the code has it. In every cache reached from the empty one (heights not
  negative, positive lock periods, no wallet named like the key of the dictionary), the stored
  dictionary of unstaking wallets holds every address whose record has a positive unstaking
  value, with the unlock height of the record. A per-address update that settles the unstaking
  value to zero writes the record only: it enters nothing in the dictionary and removes
  nothing from it, so an entry made by an earlier unstake stays until the sweep reaches its
  unlock height.
\<close>

theorem unstaking_wallets_are_pending:
  "((\<forall>c \<in> set calls. policy_ok (fst c) (fst (snd c)) \<and> UNSTAKING_KEY \<notin> fst ` set (snd (snd c)))
      \<and> get (run tid calls []) a = Some (Rec stake_value unstaking_value unlock_height)
      \<and> 0 < unstaking_value
     \<longrightarrow> (\<exists>ua. load_dict (run tid calls []) UNSTAKING_KEY = Inr ua
              \<and> map_of ua a = Some unlock_height))
   \<and> (update_wallet env height pts (b, cur) (t, db) = (Inr t', db')
      \<and> get db' b = Some (Rec s 0 l) \<and> b \<noteq> UNSTAKING_KEY
     \<longrightarrow> db' = put b (Rec cur 0 0) db
         \<and> load_dict db' UNSTAKING_KEY = load_dict db UNSTAKING_KEY)"
proof (intro conjI impI)
  assume h: "(\<forall>c \<in> set calls. policy_ok (fst c) (fst (snd c))
                 \<and> UNSTAKING_KEY \<notin> fst ` set (snd (snd c)))
      \<and> get (run tid calls []) a = Some (Rec stake_value unstaking_value unlock_height)
      \<and> 0 < unstaking_value"
  have "ledger_inv ([] :: int store)"
    by (simp add: ledger_inv_def wallet_inv_def pending_inv_def load_dict_def get_empty)
  with h have "ledger_inv (run tid calls [])"
    by (simp add: ledger_inv_run)
  then have "pending_inv (run tid calls [])" by (simp add: ledger_inv_def)
  with h show "\<exists>ua. load_dict (run tid calls []) UNSTAKING_KEY = Inr ua
              \<and> map_of ua a = Some unlock_height"
    unfolding pending_inv_def by blast
next
  assume h: "update_wallet env height pts (b, cur) (t, db) = (Inr t', db')
      \<and> get db' b = Some (Rec s 0 l) \<and> b \<noteq> UNSTAKING_KEY"
  then have d: "db' = put b (Rec cur 0 0) db"
    using settled_update by blast
  then show "db' = put b (Rec cur 0 0) db" .
  from h have "UNSTAKING_KEY \<noteq> b" by auto
  with d show "load_dict db' UNSTAKING_KEY = load_dict db UNSTAKING_KEY"
    by (simp add: load_dict_put_other)
qed

lemma run_calls2:
  "run ''t'' calls2 [] =
    [(''unstaking'', Dict [(''hxa'', 4)]), (''hxa'', Rec 40 60 4),
     (''prev_state_height'', IntVal 2), (''prev_total_staking'', NumVal 40),
     (''prev_total_unstaking'', NumVal 60),
     (''prev_total_staking_wallets'', IntVal 1)]"
  unfolding calls2_def by (rule run2)

lemma execute_restake:
  "stake_history_execute example_chain ''t'' 3 [(''hxa'', 100)] (run ''t'' calls2 [])
   = (Inr (Some \<lparr>out_height = 3,
                  out_data = \<lparr>total_staking = 100, total_unstaking = 0,
                               total_staking_wallets = 1\<rparr>\<rparr>),
      [],
      [(''unstaking'', Dict [(''hxa'', 4)]), (''hxa'', Rec 100 0 0),
       (''prev_state_height'', IntVal 3), (''prev_total_staking'', NumVal 100),
       (''prev_total_unstaking'', NumVal 0),
       (''prev_total_staking_wallets'', IntVal 1)])"
  unfolding run_calls2 by (simp add: exec_defs)

text \<open>
  The dictionary is not exactly the set of unstaking wallets. \<open>hxa\<close> stakes 100 at height 1,
  lowers the stake to 40 at height 2 (unlock height 4) and raises it to 100 again at height 3.
  The block at height 3 commits; the record of \<open>hxa\<close> then has no unstaking value, and the
  stored dictionary still holds \<open>hxa\<close>.
\<close>

theorem unstaking_wallets_are_pending_counterexample:
  "fst (stake_history_execute example_chain ''t'' 3 [(''hxa'', 100)] (run ''t'' calls2 []))
     = Inr (Some \<lparr>out_height = 3,
                  out_data = \<lparr>total_staking = 100, total_unstaking = 0,
                               total_staking_wallets = 1\<rparr>\<rparr>)
   \<and> get (snd (snd (stake_history_execute example_chain ''t'' 3 [(''hxa'', 100)]
                      (run ''t'' calls2 [])))) ''hxa''
     = Some (Rec 100 0 0)
   \<and> load_dict (snd (snd (stake_history_execute example_chain ''t'' 3 [(''hxa'', 100)]
                      (run ''t'' calls2 [])))) UNSTAKING_KEY
     = Inr [(''hxa'', 4)]"
  unfolding execute_restake by (simp add: load_dict_def get_def UNSTAKING_KEY_def)

theorem unstaking_wallets_are_pending_witness:
  "policy_ok example_chain 1 \<and> policy_ok example_chain 2 \<and> UNSTAKING_KEY \<noteq> ''hxa''
   \<and> get (run ''t'' calls2 []) ''hxa'' = Some (Rec 40 60 4) \<and> (0 :: real) < 60
   \<and> (\<exists>ua. load_dict (run ''t'' calls2 []) UNSTAKING_KEY = Inr ua \<and> map_of ua ''hxa'' = Some 4)
   \<and> update_wallet example_chain 3 40 (''hxa'', 100)
        (\<lparr>total_staking = 40, total_unstaking = 60, total_staking_wallets = 1\<rparr>, run ''t'' calls2 [])
      = (Inr \<lparr>total_staking = 100, total_unstaking = 0, total_staking_wallets = 1\<rparr>,
         put ''hxa'' (Rec 100 0 0) (run ''t'' calls2 []))
   \<and> load_dict (put ''hxa'' (Rec 100 0 0) (run ''t'' calls2 [])) UNSTAKING_KEY
      = load_dict (run ''t'' calls2 []) UNSTAKING_KEY"
proof -
  have p: "\<forall>c \<in> set calls2. policy_ok (fst c) (fst (snd c))
              \<and> UNSTAKING_KEY \<notin> fst ` set (snd (snd c))"
    by (simp add: calls2_def policy_ok_example UNSTAKING_KEY_def)
  have g: "get (run ''t'' calls2 []) ''hxa'' = Some (Rec 40 60 4)"
    unfolding run_calls2 by (simp add: get_def)
  have u: "update_wallet example_chain 3 40 (''hxa'', 100)
        (\<lparr>total_staking = 40, total_unstaking = 60, total_staking_wallets = 1\<rparr>, run ''t'' calls2 [])
      = (Inr \<lparr>total_staking = 100, total_unstaking = 0, total_staking_wallets = 1\<rparr>,
         put ''hxa'' (Rec 100 0 0) (run ''t'' calls2 []))"
    unfolding run_calls2 by (simp add: exec_defs)
  have g': "get (put ''hxa'' (Rec 100 0 0) (run ''t'' calls2 [])) ''hxa'' = Some (Rec 100 0 0)"
    by (simp add: get_put)
  have k: "''hxa'' \<noteq> UNSTAKING_KEY" by (simp add: UNSTAKING_KEY_def)
  note inst = unstaking_wallets_are_pending [where calls = calls2 and tid = "''t''" and a = "''hxa''"
      and stake_value = 40 and unstaking_value = 60 and unlock_height = 4
      and env = example_chain and height = 3 and pts = 40 and b = "''hxa''" and cur = 100
      and t = "\<lparr>total_staking = 40, total_unstaking = 60, total_staking_wallets = 1\<rparr>"
      and db = "run ''t'' calls2 []"
      and t' = "\<lparr>total_staking = 100, total_unstaking = 0, total_staking_wallets = 1\<rparr>"
      and db' = "put ''hxa'' (Rec 100 0 0) (run ''t'' calls2 [])" and s = 100 and l = 0]
  from inst p g have 1: "\<exists>ua. load_dict (run ''t'' calls2 []) UNSTAKING_KEY = Inr ua
                           \<and> map_of ua ''hxa'' = Some 4"
    by simp
  from inst u g' k have 2: "load_dict (put ''hxa'' (Rec 100 0 0) (run ''t'' calls2 [])) UNSTAKING_KEY
      = load_dict (run ''t'' calls2 []) UNSTAKING_KEY"
    by blast
  from g 1 u 2 show ?thesis
    by (simp add: policy_ok_example UNSTAKING_KEY_def)
qed

section \<open>A block with an empty payload\<close>

lemmas key_defs = PREV_STATE_HEIGHT_KEY_def PREV_TOTAL_STAKING_KEY_def
  PREV_TOTAL_UNSTAKING_KEY_def PREV_TOTAL_STAKING_WALLETS_KEY_def UNSTAKING_KEY_def

lemma map_of_Some_key: "map_of xs k = Some v \<Longrightarrow> k \<in> fst ` set xs"
  by (force dest: map_of_SomeD)

lemma cleanup_succeeds:
  assumes "distinct ks"
      and "\<forall>k \<in> set ks. \<exists>h. map_of ua k = Some h
              \<and> (h \<le> height \<longrightarrow> (\<exists>s u l. get db k = Some (Rec s u l)))"
  shows "\<exists>ua' db'. cleanup height ks ua db = (Inr ua', db')"
  using assms
proof (induction ks arbitrary: ua db)
  case Nil
  then show ?case by simp
next
  case (Cons a as)
  from Cons.prems(2) obtain h where h: "map_of ua a = Some h"
    and r: "h \<le> height \<longrightarrow> (\<exists>s u l. get db a = Some (Rec s u l))"
    by auto
  from Cons.prems(1) have d: "distinct as" and na: "a \<notin> set as" by simp_all
  show ?case
  proof (cases "h \<le> height")
    case False
    from Cons.prems(2) have "\<forall>k \<in> set as. \<exists>h. map_of ua k = Some h
              \<and> (h \<le> height \<longrightarrow> (\<exists>s u l. get db k = Some (Rec s u l)))"
      by simp
    from Cons.IH [OF d this] h False show ?thesis by simp
  next
    case True
    with r obtain s u l where g: "get db a = Some (Rec s u l)" by blast
    have "\<forall>k \<in> set as. \<exists>h. map_of (AList.delete a ua) k = Some h
              \<and> (h \<le> height \<longrightarrow> (\<exists>s' u' l'. get (put a (Rec s 0 0) db) k = Some (Rec s' u' l')))"
    proof
      fix k assume k: "k \<in> set as"
      with na have "k \<noteq> a" by auto
      with Cons.prems(2) k show "\<exists>h. map_of (AList.delete a ua) k = Some h
              \<and> (h \<le> height \<longrightarrow> (\<exists>s' u' l'. get (put a (Rec s 0 0) db) k = Some (Rec s' u' l')))"
        by (simp add: delete_conv' get_put)
    qed
    from Cons.IH [OF d this] h True g show ?thesis by simp
  qed
qed

lemma load_float_not_rec: "load_float db k = Inr x \<Longrightarrow> get db k \<noteq> Some (Rec s u l)"
  by (auto simp: load_float_def)

lemma load_totals_not_rec:
  assumes "load_totals db = Inr prev"
  shows "get db PREV_TOTAL_STAKING_KEY \<noteq> Some (Rec s u l)
       \<and> get db PREV_TOTAL_UNSTAKING_KEY \<noteq> Some (Rec s u l)
       \<and> get db PREV_TOTAL_STAKING_WALLETS_KEY \<noteq> Some (Rec s u l)"
  using assms
  by (auto simp: load_totals_def split: sum.splits dest: load_float_not_rec)

text \<open>
  Claim C9. Call \<open>execute\<close> at the height after the committed one with an empty payload, on a
  cache whose totals parse and whose dictionary of unstaking wallets has one entry per address
  and a wallet record behind every entry that is due. Then the call returns an output for that
  height (with the totals as they were), the sweep has run (every due entry is gone from the
  stored dictionary and its wallet record has unstaking value and unlock height zero; the
  entries that are not due are kept), and the committed height is that height. The conditions
  on the cache hold in every cache that a run reaches from the empty one when no payload names
  a reserved key (\<open>wf_cache_run\<close> below).
\<close>

theorem empty_payload_commits:
  assumes p: "get db PREV_STATE_HEIGHT_KEY = Some (IntVal (height - 1))"
      and t: "load_totals db = Inr prev"
      and l: "load_dict db UNSTAKING_KEY = Inr ua"
      and d: "distinct (map fst ua)"
      and r: "\<forall>(a, h) \<in> set ua. h \<le> height \<longrightarrow> (\<exists>s u l. get db a = Some (Rec s u l))"
  shows "\<exists>ua' db'.
           stake_history_execute env tid height [] db
             = (Inr (Some \<lparr>out_height = height, out_data = prev\<rparr>), [], db')
         \<and> get db' PREV_STATE_HEIGHT_KEY = Some (IntVal height)
         \<and> load_dict db' UNSTAKING_KEY = Inr ua'
         \<and> (\<forall>a. map_of ua' a = (if expired height ua a then None else map_of ua a))
         \<and> (\<forall>a. expired height ua a \<longrightarrow> (\<exists>s u l. get db a = Some (Rec s u l)
                                                  \<and> get db' a = Some (Rec s 0 0)))"
proof -
  have o: "out_of_order db PREV_STATE_HEIGHT_KEY height = Inr None"
    using p by (simp add: out_of_order_def)
  have "\<forall>k \<in> set (map fst ua). \<exists>h. map_of ua k = Some h
              \<and> (h \<le> height \<longrightarrow> (\<exists>s u l. get db k = Some (Rec s u l)))"
  proof
    fix k assume "k \<in> set (map fst ua)"
    then obtain h where kh: "(k, h) \<in> set ua" by auto
    with d have "map_of ua k = Some h" by simp
    with r kh show "\<exists>h. map_of ua k = Some h
              \<and> (h \<le> height \<longrightarrow> (\<exists>s u l. get db k = Some (Rec s u l)))"
      by auto
  qed
  from cleanup_succeeds [OF d this] obtain ua' db1 where
    c: "cleanup height (map fst ua) ua db = (Inr ua', db1)" by blast
  let ?db' = "commit_totals height prev (put UNSTAKING_KEY (Dict ua') db1)"
  have e: "stake_history_execute env tid height [] db
             = (Inr (Some \<lparr>out_height = height, out_data = prev\<rparr>), [], ?db')"
    using o t l c by (simp add: stake_history_execute_def)
  have h: "get ?db' PREV_STATE_HEIGHT_KEY = Some (IntVal height)"
    by (simp add: get_commit_totals key_defs)
  have "UNSTAKING_KEY \<notin> set [PREV_STATE_HEIGHT_KEY, PREV_TOTAL_STAKING_KEY,
          PREV_TOTAL_UNSTAKING_KEY, PREV_TOTAL_STAKING_WALLETS_KEY]"
    by (simp add: key_defs)
  then have "get ?db' UNSTAKING_KEY = Some (Dict ua')"
    by (simp add: get_commit_totals get_put)
  then have l': "load_dict ?db' UNSTAKING_KEY = Inr ua'"
    by (simp add: load_dict_def)
  have m: "map_of ua' a = (if expired height ua a then None else map_of ua a)" for a
  proof -
    have "expired height ua a \<Longrightarrow> a \<in> set (map fst ua)"
      by (auto simp: expired_def split: option.splits dest: map_of_Some_key)
    with cleanup_result [OF c, of a] show ?thesis by auto
  qed
  have z: "\<exists>s u l. get db a = Some (Rec s u l) \<and> get ?db' a = Some (Rec s 0 0)"
    if x: "expired height ua a" for a
  proof -
    from x obtain h where mh: "map_of ua a = Some h" and hh: "h \<le> height"
      by (auto simp: expired_def split: option.splits)
    then have "(a, h) \<in> set ua" by (auto dest: map_of_SomeD)
    with r hh obtain s u l where g: "get db a = Some (Rec s u l)" by blast
    from mh have "a \<in> set (map fst ua)" by (auto dest: map_of_Some_key)
    with cleanup_result [OF c, of a] x g have g1: "get db1 a = Some (Rec s 0 0)"
      by (simp add: zero_rec_def)
    from g l have "a \<noteq> UNSTAKING_KEY" by (auto simp: load_dict_def)
    moreover from g p have "a \<noteq> PREV_STATE_HEIGHT_KEY" by auto
    moreover from g load_totals_not_rec [OF t, of s u l]
    have "a \<noteq> PREV_TOTAL_STAKING_KEY" "a \<noteq> PREV_TOTAL_UNSTAKING_KEY"
      "a \<noteq> PREV_TOTAL_STAKING_WALLETS_KEY" by auto
    ultimately have "get ?db' a = get db1 a"
      by (simp add: get_commit_totals get_put)
    with g g1 show ?thesis by simp
  qed
  from e h l' m z show ?thesis by blast
qed

lemma run_calls3:
  "run ''t'' calls3 [] =
    [(''unstaking'', Dict [(''hxa'', 4)]), (''hxa'', Rec 40 60 4),
     (''prev_state_height'', IntVal 3), (''prev_total_staking'', NumVal 40),
     (''prev_total_unstaking'', NumVal 60),
     (''prev_total_staking_wallets'', IntVal 1)]"
  unfolding calls3_def calls2_def by (simp add: exec_defs)

theorem empty_payload_commits_witness:
  "get (run ''t'' calls3 []) PREV_STATE_HEIGHT_KEY = Some (IntVal (4 - 1))
   \<and> load_totals (run ''t'' calls3 [])
       = Inr \<lparr>total_staking = 40, total_unstaking = 60, total_staking_wallets = 1\<rparr>
   \<and> load_dict (run ''t'' calls3 []) UNSTAKING_KEY = Inr [(''hxa'', 4)]
   \<and> get (run ''t'' calls3 []) ''hxa'' = Some (Rec 40 60 4)
   \<and> (\<exists>ua' db'.
         stake_history_execute example_chain ''t'' 4 [] (run ''t'' calls3 [])
           = (Inr (Some \<lparr>out_height = 4,
                 out_data = \<lparr>total_staking = 40, total_unstaking = 60,
                              total_staking_wallets = 1\<rparr>\<rparr>), [], db')
         \<and> get db' PREV_STATE_HEIGHT_KEY = Some (IntVal 4)
         \<and> load_dict db' UNSTAKING_KEY = Inr ua'
         \<and> map_of ua' ''hxa'' = None
         \<and> get db' ''hxa'' = Some (Rec 40 0 0))"
proof -
  have p: "get (run ''t'' calls3 []) PREV_STATE_HEIGHT_KEY = Some (IntVal (4 - 1))"
    unfolding run_calls3 by (simp add: get_def key_defs)
  have t: "load_totals (run ''t'' calls3 [])
       = Inr \<lparr>total_staking = 40, total_unstaking = 60, total_staking_wallets = 1\<rparr>"
    unfolding run_calls3 by (simp add: exec_defs)
  have l: "load_dict (run ''t'' calls3 []) UNSTAKING_KEY = Inr [(''hxa'', 4)]"
    unfolding run_calls3 by (simp add: exec_defs)
  have g: "get (run ''t'' calls3 []) ''hxa'' = Some (Rec 40 60 4)"
    unfolding run_calls3 by (simp add: get_def)
  have d: "distinct (map fst [(''hxa'', 4 :: int)])" by simp
  have r: "\<forall>(a, h) \<in> set [(''hxa'', 4 :: int)]. h \<le> 4
             \<longrightarrow> (\<exists>s u l. get (run ''t'' calls3 []) a = Some (Rec s u l))"
    using g by simp
  have x: "expired 4 [(''hxa'', 4)] ''hxa''" by (simp add: expired_def)
  from empty_payload_commits [OF p t l d r, of example_chain "''t''"] obtain ua' db' where
    e: "stake_history_execute example_chain ''t'' 4 [] (run ''t'' calls3 [])
           = (Inr (Some \<lparr>out_height = 4,
                 out_data = \<lparr>total_staking = 40, total_unstaking = 60,
                              total_staking_wallets = 1\<rparr>\<rparr>), [], db')"
    and h: "get db' PREV_STATE_HEIGHT_KEY = Some (IntVal 4)"
    and l': "load_dict db' UNSTAKING_KEY = Inr ua'"
    and m: "\<forall>a. map_of ua' a = (if expired 4 [(''hxa'', 4)] a then None
                                   else map_of [(''hxa'', 4)] a)"
    and z: "\<forall>a. expired 4 [(''hxa'', 4)] a \<longrightarrow>
               (\<exists>s u l. get (run ''t'' calls3 []) a = Some (Rec s u l)
                   \<and> get db' a = Some (Rec s 0 0))"
    by blast
  from m x have m': "map_of ua' ''hxa'' = None" by simp
  from z x g have z': "get db' ''hxa'' = Some (Rec 40 0 0)" by auto
  from p t l g e h l' m' z' show ?thesis by blast
qed

section \<open>Settlement of a lock\<close>






lemma load_dict_commit_totals:
  "load_dict (commit_totals height t db) UNSTAKING_KEY = load_dict db UNSTAKING_KEY"
proof -
  have "UNSTAKING_KEY \<notin> set [PREV_STATE_HEIGHT_KEY, PREV_TOTAL_STAKING_KEY,
          PREV_TOTAL_UNSTAKING_KEY, PREV_TOTAL_STAKING_WALLETS_KEY]"
    by (simp add: key_defs)
  then have "get (commit_totals height t db) UNSTAKING_KEY = get db UNSTAKING_KEY"
    by (simp add: get_commit_totals)
  then show ?thesis by (simp add: load_dict_def)
qed













lemma run_idle2:
  "run ''t'' idle2 (run ''t'' calls2 []) =
    [(''unstaking'', Dict []), (''hxa'', Rec 40 0 0),
     (''prev_state_height'', IntVal 4), (''prev_total_staking'', NumVal 40),
     (''prev_total_unstaking'', NumVal 60),
     (''prev_total_staking_wallets'', IntVal 1)]"
  unfolding run_calls2 idle2_def by (simp add: exec_defs)




section \<open>The totals against the wallet records\<close>

text \<open>
  Claim C2 fails on the code for the unstaking total. \<open>hxa\<close> stakes 100 at height 1 and lowers
  the stake to 40 at height 2 (unstaking 60, unlock height 4); the blocks at heights 3 and 4 are
  empty. The sweep of the block at height 4 zeroes the unstaking value of the record and takes
  nothing from the total: the block commits with \<open>total_unstaking = 60\<close>, written to the cache
  and returned, while the unstaking values of the wallet records sum to 0. The staking total
  agrees with the records.
\<close>

theorem sweep_keeps_total_unstaking:
  "stake_history_execute example_chain ''t'' 4 [] (run ''t'' calls3 [])
     = (Inr (Some \<lparr>out_height = 4,
                  out_data = \<lparr>total_staking = 40, total_unstaking = 60,
                               total_staking_wallets = 1\<rparr>\<rparr>),
        [],
        [(''unstaking'', Dict []), (''hxa'', Rec 40 0 0),
         (''prev_state_height'', IntVal 4), (''prev_total_staking'', NumVal 40),
         (''prev_total_unstaking'', NumVal 60),
         (''prev_total_staking_wallets'', IntVal 1)])
   \<and> unstaking_sum [(''unstaking'', Dict []), (''hxa'', Rec 40 0 0),
         (''prev_state_height'', IntVal 4), (''prev_total_staking'', NumVal 40),
         (''prev_total_unstaking'', NumVal 60),
         (''prev_total_staking_wallets'', IntVal 1)] = 0
   \<and> stake_sum [(''unstaking'', Dict []), (''hxa'', Rec 40 0 0),
         (''prev_state_height'', IntVal 4), (''prev_total_staking'', NumVal 40),
         (''prev_total_unstaking'', NumVal 60),
         (''prev_total_staking_wallets'', IntVal 1)] = 40"
  unfolding run_calls3 by (simp add: exec_defs)

section \<open>Writes of a call that raises\<close>

text \<open>
  Claim C5 fails on the code for the staking ledger, which writes every put to the cache at
  once and uses no batch. After the block at height 1 (\<open>hxa\<close> stakes 100) the block at height
  2 stakes 100 for \<open>hxb\<close> and lowers \<open>hxa\<close> to 40, and the total supply cannot be read. The call
  raises at \<open>hxa\<close>; by then the dictionary of unstaking wallets has been rewritten and the
  record of \<open>hxb\<close> has been added to the cache, where it stays next to the height 1 and the
  totals of height 1.
\<close>

theorem raising_call_leaves_writes:
  "run ''t'' [(example_chain, 1, [(''hxa'', 100)])] []
     = [(''unstaking'', Dict []), (''hxa'', Rec 100 0 0),
        (''prev_state_height'', IntVal 1), (''prev_total_staking'', NumVal 100),
        (''prev_total_unstaking'', NumVal 0),
        (''prev_total_staking_wallets'', IntVal 1)]
   \<and> stake_history_execute no_supply_chain ''t'' 2 block2
        (run ''t'' [(example_chain, 1, [(''hxa'', 100)])] [])
     = (Inl TypeError, [],
        [(''unstaking'', Dict []), (''hxa'', Rec 100 0 0),
         (''prev_state_height'', IntVal 1), (''prev_total_staking'', NumVal 100),
         (''prev_total_unstaking'', NumVal 0),
         (''prev_total_staking_wallets'', IntVal 1), (''hxb'', Rec 100 0 0)])"
  unfolding run1 by (simp add: exec_defs block2_def no_supply_chain_def)

section \<open>Caches that a run can reach\<close>

lemma load_totals_cong:
  assumes "get db' PREV_TOTAL_STAKING_KEY = get db PREV_TOTAL_STAKING_KEY"
      and "get db' PREV_TOTAL_UNSTAKING_KEY = get db PREV_TOTAL_UNSTAKING_KEY"
      and "get db' PREV_TOTAL_STAKING_WALLETS_KEY = get db PREV_TOTAL_STAKING_WALLETS_KEY"
  shows "load_totals db' = load_totals db"
proof -
  from assms have f: "load_float db' PREV_TOTAL_STAKING_KEY = load_float db PREV_TOTAL_STAKING_KEY"
    "load_float db' PREV_TOTAL_UNSTAKING_KEY = load_float db PREV_TOTAL_UNSTAKING_KEY"
    "load_float db' PREV_TOTAL_STAKING_WALLETS_KEY = load_float db PREV_TOTAL_STAKING_WALLETS_KEY"
    by (simp_all add: load_float_def)
  show ?thesis unfolding load_totals_def f ..
qed

lemma out_of_order_cong:
  "get db' key = get db key \<Longrightarrow> out_of_order db' key h = out_of_order db key h"
  by (simp add: out_of_order_def)

lemma load_dict_cong:
  "get db' key = get db key \<Longrightarrow> load_dict db' key = load_dict db key"
  by (simp add: load_dict_def)

lemma same_reserved_loads:
  assumes "same_reserved db db'"
  shows "load_totals db' = load_totals db"
    and "out_of_order db' PREV_STATE_HEIGHT_KEY h = out_of_order db PREV_STATE_HEIGHT_KEY h"
    and "load_dict db' UNSTAKING_KEY = load_dict db UNSTAKING_KEY"
proof -
  from assms have g: "get db' PREV_STATE_HEIGHT_KEY = get db PREV_STATE_HEIGHT_KEY"
    "get db' PREV_TOTAL_STAKING_KEY = get db PREV_TOTAL_STAKING_KEY"
    "get db' PREV_TOTAL_UNSTAKING_KEY = get db PREV_TOTAL_UNSTAKING_KEY"
    "get db' PREV_TOTAL_STAKING_WALLETS_KEY = get db PREV_TOTAL_STAKING_WALLETS_KEY"
    "get db' UNSTAKING_KEY = get db UNSTAKING_KEY"
    by (simp_all add: same_reserved_def reserved_keys_def)
  show "load_totals db' = load_totals db"
    by (rule load_totals_cong) (rule g)+
  show "out_of_order db' PREV_STATE_HEIGHT_KEY h = out_of_order db PREV_STATE_HEIGHT_KEY h"
    by (rule out_of_order_cong) (rule g)
  show "load_dict db' UNSTAKING_KEY = load_dict db UNSTAKING_KEY"
    by (rule load_dict_cong) (rule g)
qed

lemma wf_cacheI:
  assumes "load_totals db = Inr prev"
      and "out_of_order db PREV_STATE_HEIGHT_KEY (p + 1) = Inr None"
      and "load_dict db UNSTAKING_KEY = Inr ua" and "distinct (map fst ua)"
      and "\<And>a. a \<in> fst ` set ua \<Longrightarrow> a \<notin> set reserved_keys"
      and "\<And>a. a \<in> fst ` set ua \<Longrightarrow> \<exists>s u l. get db a = Some (Rec s u l)"
  shows "wf_cache db"
  unfolding wf_cache_def using assms by blast

lemma wf_cache_transfer:
  assumes w: "wf_cache db" and r: "same_reserved db db'"
      and c: "\<And>a s u l. get db a = Some (Rec s u l) \<Longrightarrow> \<exists>s' u' l'. get db' a = Some (Rec s' u' l')"
  shows "wf_cache db'"
proof -
  from w obtain prev p ua where
    t: "load_totals db = Inr prev"
    and o: "out_of_order db PREV_STATE_HEIGHT_KEY (p + 1) = Inr None"
    and l: "load_dict db UNSTAKING_KEY = Inr ua" and d: "distinct (map fst ua)"
    and k: "\<forall>a \<in> fst ` set ua. a \<notin> set reserved_keys \<and> (\<exists>s u l. get db a = Some (Rec s u l))"
    unfolding wf_cache_def by blast
  show ?thesis
  proof (rule wf_cacheI)
    show "load_totals db' = Inr prev" using t r by (simp add: same_reserved_loads)
    show "out_of_order db' PREV_STATE_HEIGHT_KEY (p + 1) = Inr None"
      using o r by (simp add: same_reserved_loads)
    show "load_dict db' UNSTAKING_KEY = Inr ua" using l r by (simp add: same_reserved_loads)
    show "distinct (map fst ua)" by fact
  next
    fix a assume "a \<in> fst ` set ua"
    with k show "a \<notin> set reserved_keys" by blast
  next
    fix a assume "a \<in> fst ` set ua"
    with k obtain s u l where "get db a = Some (Rec s u l)" by blast
    from c [OF this] show "\<exists>s u l. get db' a = Some (Rec s u l)" .
  qed
qed

lemma reserved_not_rec:
  assumes "wf_cache db" and "k \<in> set reserved_keys"
  shows "get db k \<noteq> Some (Rec s u l)"
proof -
  from assms(1) obtain prev p ua where
    t: "load_totals db = Inr prev"
    and o: "out_of_order db PREV_STATE_HEIGHT_KEY (p + 1) = Inr None"
    and l: "load_dict db UNSTAKING_KEY = Inr ua"
    unfolding wf_cache_def by blast
  from o have "get db PREV_STATE_HEIGHT_KEY \<noteq> Some (Rec s u l)"
    by (auto simp: out_of_order_def)
  moreover from l have "get db UNSTAKING_KEY \<noteq> Some (Rec s u l)"
    by (auto simp: load_dict_def)
  moreover note load_totals_not_rec [OF t, of s u l]
  ultimately show ?thesis using assms(2) by (auto simp: reserved_keys_def)
qed

lemma wf_cache_cleanup:
  assumes "wf_cache db"
  shows "wf_cache (snd (cleanup height ks ua db))"
proof (rule wf_cache_transfer [OF assms])
  show "same_reserved db (snd (cleanup height ks ua db))"
    unfolding same_reserved_def
  proof
    fix k assume "k \<in> set reserved_keys"
    from reserved_not_rec [OF assms this] cleanup_cells [of height ks ua db k]
    show "get (snd (cleanup height ks ua db)) k = get db k" by auto
  qed
next
  fix a s u l assume "get db a = Some (Rec s u l)"
  with cleanup_cells [of height ks ua db a]
  show "\<exists>s' u' l'. get (snd (cleanup height ks ua db)) a = Some (Rec s' u' l')" by auto
qed

lemma cleanup_keys:
  "cleanup height ks ua db = (Inr ua', db') \<Longrightarrow> distinct (map fst ua) \<Longrightarrow>
     distinct (map fst ua') \<and> fst ` set ua' \<subseteq> fst ` set ua"
proof (induction ks arbitrary: ua db)
  case Nil
  then show ?case by simp
next
  case (Cons k ks)
  from Cons.prems(1) obtain h where h: "map_of ua k = Some h"
    by (auto split: option.splits)
  show ?case
  proof (cases "h \<le> height")
    case False
    with h Cons.prems(1) have "cleanup height ks ua db = (Inr ua', db')" by simp
    from Cons.IH [OF this Cons.prems(2)] show ?thesis .
  next
    case True
    with h Cons.prems(1) obtain s where
      c: "cleanup height ks (AList.delete k ua) (put k (Rec s 0 0) db) = (Inr ua', db')"
      by (auto simp: parse_rec_Inr split: option.splits sum.splits)
    have "distinct (map fst (AList.delete k ua))"
      using Cons.prems(2) by (rule distinct_delete)
    moreover have "fst ` set (AList.delete k ua) \<subseteq> fst ` set ua"
      by (auto simp: AList.delete_eq)
    ultimately show ?thesis
      using Cons.IH [OF c] by blast
  qed
qed

lemma wf_cache_swept:
  assumes w: "wf_cache db" and l: "load_dict db UNSTAKING_KEY = Inr ua"
      and c: "cleanup height ks ua db = (Inr ua', db1)"
  shows "wf_cache (put UNSTAKING_KEY (Dict ua') db1)"
proof -
  from c have d1: "db1 = snd (cleanup height ks ua db)" by simp
  from wf_cache_cleanup [OF w, of height ks ua] d1 have w1: "wf_cache db1" by simp
  from w l have d: "distinct (map fst ua)"
    and k: "\<forall>a \<in> fst ` set ua. a \<notin> set reserved_keys \<and> (\<exists>s u l. get db a = Some (Rec s u l))"
    unfolding wf_cache_def by auto
  from cleanup_keys [OF c d] have d': "distinct (map fst ua')"
    and sub: "fst ` set ua' \<subseteq> fst ` set ua" by simp_all
  from w1 obtain prev p where
    t: "load_totals db1 = Inr prev"
    and o: "out_of_order db1 PREV_STATE_HEIGHT_KEY (p + 1) = Inr None"
    unfolding wf_cache_def by blast
  have u: "UNSTAKING_KEY \<notin> set [PREV_STATE_HEIGHT_KEY, PREV_TOTAL_STAKING_KEY,
          PREV_TOTAL_UNSTAKING_KEY, PREV_TOTAL_STAKING_WALLETS_KEY]"
    by (simp add: key_defs)
  show ?thesis
  proof (rule wf_cacheI)
    have g: "get (put UNSTAKING_KEY (Dict ua') db1) k = get db1 k"
      if "k \<in> set [PREV_STATE_HEIGHT_KEY, PREV_TOTAL_STAKING_KEY,
          PREV_TOTAL_UNSTAKING_KEY, PREV_TOTAL_STAKING_WALLETS_KEY]" for k
      using that u by (auto simp: get_put)
    have "load_totals (put UNSTAKING_KEY (Dict ua') db1) = load_totals db1"
      by (rule load_totals_cong) (simp_all add: g)
    with t show "load_totals (put UNSTAKING_KEY (Dict ua') db1) = Inr prev" by simp
    have "out_of_order (put UNSTAKING_KEY (Dict ua') db1) PREV_STATE_HEIGHT_KEY (p + 1)
            = out_of_order db1 PREV_STATE_HEIGHT_KEY (p + 1)"
      by (rule out_of_order_cong) (simp add: g)
    with o show "out_of_order (put UNSTAKING_KEY (Dict ua') db1) PREV_STATE_HEIGHT_KEY (p + 1)
                   = Inr None" by simp
    show "load_dict (put UNSTAKING_KEY (Dict ua') db1) UNSTAKING_KEY = Inr ua'"
      by (rule load_dict_put_same)
    show "distinct (map fst ua')" by fact
  next
    fix a assume "a \<in> fst ` set ua'"
    with sub k show "a \<notin> set reserved_keys" by blast
  next
    fix a assume "a \<in> fst ` set ua'"
    with sub k obtain s u l where a: "a \<notin> set reserved_keys" and g: "get db a = Some (Rec s u l)"
      by blast
    from a have "a \<noteq> UNSTAKING_KEY" by (auto simp: reserved_keys_def)
    moreover from cleanup_cells [of height ks ua db a] g d1
    have "\<exists>s u l. get db1 a = Some (Rec s u l)" by auto
    ultimately show "\<exists>s u l. get (put UNSTAKING_KEY (Dict ua') db1) a = Some (Rec s u l)"
      by (simp add: get_put)
  qed
qed

lemma same_reserved_put:
  "k \<notin> set reserved_keys \<Longrightarrow> same_reserved db (put k v db)"
  by (auto simp: same_reserved_def get_put)

lemma wf_cache_put_rec:
  assumes "wf_cache db" and "a \<notin> set reserved_keys"
  shows "wf_cache (put a (Rec s u l) db)"
  by (rule wf_cache_transfer [OF assms(1) same_reserved_put [OF assms(2)]])
     (auto simp: get_put)

lemma wf_cache_note:
  assumes w: "wf_cache db" and a: "a \<notin> set reserved_keys"
      and g: "get db a = Some (Rec s u l)"
  shows "wf_cache (snd (note_unstaking a ul db))"
proof (cases "ul = 0")
  case True
  with w show ?thesis by (simp add: note_unstaking_store)
next
  case False
  from w obtain prev p ua where
    t: "load_totals db = Inr prev"
    and o: "out_of_order db PREV_STATE_HEIGHT_KEY (p + 1) = Inr None"
    and l: "load_dict db UNSTAKING_KEY = Inr ua" and d: "distinct (map fst ua)"
    and k: "\<forall>a \<in> fst ` set ua. a \<notin> set reserved_keys \<and> (\<exists>s u l. get db a = Some (Rec s u l))"
    unfolding wf_cache_def by blast
  let ?db' = "put UNSTAKING_KEY (Dict (AList.update a ul ua)) db"
  from False l have e: "snd (note_unstaking a ul db) = ?db'"
    by (simp add: note_unstaking_store)
  have u: "UNSTAKING_KEY \<notin> set [PREV_STATE_HEIGHT_KEY, PREV_TOTAL_STAKING_KEY,
          PREV_TOTAL_UNSTAKING_KEY, PREV_TOTAL_STAKING_WALLETS_KEY]"
    by (simp add: key_defs)
  have "set (map fst (AList.update a ul ua)) \<subseteq> insert a (set (map fst ua))"
    by (auto simp: update_keys)
  then have ks: "fst ` set (AList.update a ul ua) \<subseteq> insert a (fst ` set ua)"
    by simp
  have gk: "get ?db' k = get db k"
    if "k \<in> set [PREV_STATE_HEIGHT_KEY, PREV_TOTAL_STAKING_KEY,
          PREV_TOTAL_UNSTAKING_KEY, PREV_TOTAL_STAKING_WALLETS_KEY]" for k
    using that u by (auto simp: get_put)
  show ?thesis
    unfolding e
  proof (rule wf_cacheI)
    have "load_totals ?db' = load_totals db"
      by (rule load_totals_cong) (simp_all add: gk)
    with t show "load_totals ?db' = Inr prev" by simp
    have "out_of_order ?db' PREV_STATE_HEIGHT_KEY (p + 1)
            = out_of_order db PREV_STATE_HEIGHT_KEY (p + 1)"
      by (rule out_of_order_cong) (simp add: gk)
    with o show "out_of_order ?db' PREV_STATE_HEIGHT_KEY (p + 1) = Inr None" by simp
    show "load_dict ?db' UNSTAKING_KEY = Inr (AList.update a ul ua)"
      by (rule load_dict_put_same)
    show "distinct (map fst (AList.update a ul ua))"
      using d by (rule distinct_update)
  next
    fix b assume "b \<in> fst ` set (AList.update a ul ua)"
    with ks have "b = a \<or> b \<in> fst ` set ua" by auto
    with a k show "b \<notin> set reserved_keys" by blast
  next
    fix b assume "b \<in> fst ` set (AList.update a ul ua)"
    with ks have b: "b = a \<or> b \<in> fst ` set ua" by auto
    with a k have nr: "b \<notin> set reserved_keys" by blast
    then have "b \<noteq> UNSTAKING_KEY" by (auto simp: reserved_keys_def)
    moreover from b g k have "\<exists>s u l. get db b = Some (Rec s u l)" by blast
    ultimately show "\<exists>s u l. get ?db' b = Some (Rec s u l)"
      by (simp add: get_put)
  qed
qed

lemma wf_cache_update_wallet:
  assumes w: "wf_cache db" and a: "a \<notin> set reserved_keys"
  shows "wf_cache (snd (update_wallet env height pts (a, cur) (t, db)))"
proof -
  from update_wallet_store [of env height pts a cur t db] show ?thesis
  proof
    assume "snd (update_wallet env height pts (a, cur) (t, db)) = db"
    with w show ?thesis by simp
  next
    assume "\<exists>ps pu pl x cu ul.
           load_wallet db a = Inr (ps, pu, pl)
         \<and> restake env height pts (ps, pu, pl) cur = Inr x
         \<and> settle x = (cu, ul)
         \<and> snd (update_wallet env height pts (a, cur) (t, db))
             = snd (note_unstaking a ul (put a (Rec cur cu ul) db))"
    then obtain cu ul where
      e: "snd (update_wallet env height pts (a, cur) (t, db))
             = snd (note_unstaking a ul (put a (Rec cur cu ul) db))"
      by blast
    have w1: "wf_cache (put a (Rec cur cu ul) db)"
      using w a by (rule wf_cache_put_rec)
    have g1: "get (put a (Rec cur cu ul) db) a = Some (Rec cur cu ul)"
      by (simp add: get_put)
    show ?thesis
      unfolding e by (rule wf_cache_note [OF w1 a g1])
  qed
qed

lemma wf_cache_update_wallets:
  "wf_cache (snd st) \<Longrightarrow> \<forall>a \<in> fst ` set payload. a \<notin> set reserved_keys \<Longrightarrow>
     wf_cache (snd (update_wallets env height pts payload st))"
proof (induction payload arbitrary: st)
  case Nil
  then show ?case by simp
next
  case (Cons entry rest)
  obtain a cur where entry: "entry = (a, cur)" by (cases entry)
  obtain t db where st: "st = (t, db)" by (cases st)
  from Cons.prems(2) entry have a: "a \<notin> set reserved_keys"
    and r: "\<forall>a \<in> fst ` set rest. a \<notin> set reserved_keys" by simp_all
  have w: "wf_cache (snd (update_wallet env height pts entry st))"
    using Cons.prems(1) wf_cache_update_wallet [OF _ a, of db env height pts cur t] entry st
    by simp
  show ?case
  proof (cases "update_wallet env height pts entry st")
    case (Pair res db1)
    show ?thesis
    proof (cases res)
      case (Inl e)
      with Pair w show ?thesis by simp
    next
      case (Inr t1)
      with Pair w Cons.IH [of "(t1, db1)"] r show ?thesis by simp
    qed
  qed
qed

lemma trunc_of_int: "trunc (of_int n) = n"
  by (simp add: trunc_def)

lemma wf_cache_commit_totals:
  assumes w: "wf_cache db"
  shows "wf_cache (commit_totals height t db)"
proof -
  from w obtain ua where
    l: "load_dict db UNSTAKING_KEY = Inr ua" and d: "distinct (map fst ua)"
    and k: "\<forall>a \<in> fst ` set ua. a \<notin> set reserved_keys \<and> (\<exists>s u l. get db a = Some (Rec s u l))"
    unfolding wf_cache_def by blast
  show ?thesis
  proof (rule wf_cacheI)
    show "load_totals (commit_totals height t db)
            = Inr \<lparr>total_staking = total_staking t, total_unstaking = total_unstaking t,
                   total_staking_wallets = total_staking_wallets t\<rparr>"
      by (simp add: load_totals_def load_float_def get_commit_totals key_defs trunc_of_int)
    show "out_of_order (commit_totals height t db) PREV_STATE_HEIGHT_KEY (height + 1) = Inr None"
      by (simp add: out_of_order_def get_commit_totals key_defs)
    show "load_dict (commit_totals height t db) UNSTAKING_KEY = Inr ua"
      using l by (simp add: load_dict_commit_totals)
    show "distinct (map fst ua)" by fact
  next
    fix a assume "a \<in> fst ` set ua"
    with k show "a \<notin> set reserved_keys" by blast
  next
    fix a assume "a \<in> fst ` set ua"
    with k show "\<exists>s u l. get (commit_totals height t db) a = Some (Rec s u l)"
      by (auto simp: get_commit_totals_other)
  qed
qed

lemma wf_cache_execute:
  assumes w: "wf_cache db" and p: "\<forall>a \<in> fst ` set payload. a \<notin> set reserved_keys"
  shows "wf_cache (snd (snd (stake_history_execute env tid height payload db)))"
proof (rule execute_store_cases)
  show "wf_cache db" by fact
next
  fix ua
  from w show "wf_cache (snd (cleanup height (map fst ua) ua db))"
    by (rule wf_cache_cleanup)
next
  fix prev ua ua' db1
  assume l: "load_dict db UNSTAKING_KEY = Inr ua"
    and c: "cleanup height (map fst ua) ua db = (Inr ua', db1)"
  from wf_cache_swept [OF w l c] p
  show "wf_cache (snd (update_wallets env height (total_staking prev) payload
                       (prev, put UNSTAKING_KEY (Dict ua') db1)))"
    by (simp add: wf_cache_update_wallets)
next
  fix prev ua ua' db1 t db2
  assume l: "load_dict db UNSTAKING_KEY = Inr ua"
    and c: "cleanup height (map fst ua) ua db = (Inr ua', db1)"
    and uw: "update_wallets env height (total_staking prev) payload
                (prev, put UNSTAKING_KEY (Dict ua') db1) = (Inr t, db2)"
  from wf_cache_swept [OF w l c] p
  have "wf_cache (snd (update_wallets env height (total_staking prev) payload
                       (prev, put UNSTAKING_KEY (Dict ua') db1)))"
    by (simp add: wf_cache_update_wallets)
  with uw show "wf_cache (commit_totals height t db2)"
    by (simp add: wf_cache_commit_totals)
qed

text \<open>
  Every cache that a run reaches from the empty one, with payloads that name no reserved key,
  has totals that parse and a dictionary of unstaking wallets with one entry per address and a
  wallet record behind every entry.
\<close>

lemma wf_cache_run:
  "wf_cache db \<Longrightarrow> \<forall>c \<in> set calls. \<forall>a \<in> fst ` set (snd (snd c)). a \<notin> set reserved_keys \<Longrightarrow>
     wf_cache (run tid calls db)"
  by (induction calls arbitrary: db) (simp_all add: wf_cache_execute)

lemma wf_cache_empty: "wf_cache []"
  by (simp add: wf_cache_def load_totals_def load_float_def out_of_order_def load_dict_def
        get_empty)

end
